theory Spec2Isabelle
  imports Complex_Main "HOL-Library.List_Lexorder"
begin

section \<open>Errors\<close>

datatype error = AssertionError | KeyError | ZeroDivisionError

section \<open>Utility and score primitives\<close>

text \<open>
  Modelled from the spec: \<open>utility\<close> lives in \<open>utility_functions.py\<close>, which is imported by
  the notebooks but is not among the sources. The spec gives it as the cardinality of the
  intersection of ballot and committee, an integer.
\<close>

definition utility :: "nat list \<Rightarrow> nat list \<Rightarrow> int" where
  "utility ballot committee = int (card (set ballot \<inter> set committee))"

text \<open>
  \<open>harmonic_number(r) = sum(Fraction(1,i) for i in range(1,r+1))\<close>. The denominators run
  over \<open>1..r\<close>, so \<open>Fraction\<close> never raises here; for \<open>r < 1\<close> the range is empty and the
  sum is \<open>0\<close>. The \<open>@cache\<close> decorator does not change the value.
\<close>

definition harmonic_number :: "int \<Rightarrow> rat" where
  "harmonic_number r = sum_list (map (\<lambda>i. 1 / of_int i) [1..r])"

section \<open>The inequality check for committee size at most 7\<close>

text \<open>Python's \<open>Fraction(n, d)\<close> raises \<open>ZeroDivisionError\<close> when \<open>d = 0\<close>.\<close>

definition Fraction :: "int \<Rightarrow> int \<Rightarrow> error + rat" where
  "Fraction n d = (if d = 0 then Inl ZeroDivisionError else Inr (of_int n / of_int d))"

definition LHS :: "int \<Rightarrow> int \<Rightarrow> int \<Rightarrow> int \<Rightarrow> int \<Rightarrow> error + rat" where
  "LHS a b c W_minus_T T_minus_W =
     (if a + b \<noteq> 0 then
        (case Fraction ((W_minus_T - a) * c) (a + b + 1) of
           Inl e \<Rightarrow> Inl e
         | Inr p \<Rightarrow>
            (case Fraction (a * (T_minus_W - c)) (a + b) of
               Inl e \<Rightarrow> Inl e
             | Inr q \<Rightarrow> Inr (p - q)))
      else Fraction ((W_minus_T - a) * c) (a + b + 1))"

section \<open>Rendering of numbers in messages and key names\<close>

text \<open>Python's \<open>str\<close> on a non-negative integer: its decimal digits.\<close>

definition digit_char :: "nat \<Rightarrow> char" where
  "digit_char d = ''0123456789'' ! d"

fun str_nat :: "nat \<Rightarrow> string" where
  "str_nat n = (if n < 10 then [digit_char n] else str_nat (n div 10) @ [digit_char (n mod 10)])"

declare str_nat.simps [simp del]

definition str_int :: "int \<Rightarrow> string" where
  "str_int i = (if i < 0 then ''-'' @ str_nat (nat (- i)) else str_nat (nat i))"

text \<open>
  \<open>str\<close> of a \<open>Fraction\<close>: the numerator alone when the denominator is \<open>1\<close> (which is also
  how a Python \<open>int\<close> of the same value prints), otherwise \<open>numerator/denominator\<close> in lowest
  terms.
\<close>

definition str_Fraction :: "rat \<Rightarrow> string" where
  "str_Fraction q =
     (case quotient_of q of
        (n, d) \<Rightarrow> if d = 1 then str_int n else str_int n @ ''/'' @ str_int d)"

section \<open>The ballot universe of the notebooks\<close>

text \<open>
  Modelled from the spec: \<open>powerset\<close> is imported from \<open>utility_functions.py\<close>, which is not
  among the sources. The spec describes the universe of ballots as the full power set of the
  ground set; each subset is a tuple of alternatives in ground-set order.
\<close>

definition powerset :: "'a list \<Rightarrow> 'a list list" where
  "powerset xs = subseqs xs"

text \<open>
  The globals of the notebooks' setup cell, as functions of \<open>num_alts\<close> and \<open>k\<close> (the
  notebooks fix \<open>num_alts = 10\<close>, \<open>k = 8\<close> and \<open>T = (0, 1, 8, 9)\<close>). Tuples are lists;
  \<open>sorted\<close> on tuples of integers is the lexicographic order on lists.
\<close>

definition A :: "nat \<Rightarrow> nat list" where
  "A num_alts = [0..<num_alts]"

definition ballots :: "nat \<Rightarrow> nat list list" where
  "ballots num_alts = sort (powerset (A num_alts))"

definition pav_committee :: "nat \<Rightarrow> nat \<Rightarrow> nat list" where
  "pav_committee num_alts k = take k (A num_alts)"

definition swaps :: "nat \<Rightarrow> nat \<Rightarrow> (nat \<times> nat) list" where
  "swaps num_alts k =
     [(x, y). x \<leftarrow> pav_committee num_alts k, y \<leftarrow> A num_alts,
              y \<notin> set (pav_committee num_alts k)]"

text \<open>
  \<open>swapped(committee, x, y) = tuple(set(committee) - {x} | {y})\<close>. The difference binds
  tighter than the union. The order of the tuple is the iteration order of the set, which
  Python leaves open and which is not always ascending (CPython gives \<open>(8, 1)\<close> for
  \<open>swapped((0, 1), 0, 8)\<close>). The verifier passes the tuple to \<open>utility\<close> only, which
  depends on the elements and not on their order (\<open>utility_swapped_any_order\<close> below), so
  the ascending list stands for the tuple here. The builder uses such a tuple as a dictionary
  key; there the order matters and is modelled (\<open>make_model\<close>).
\<close>

definition swapped :: "nat list \<Rightarrow> nat \<Rightarrow> nat \<Rightarrow> nat list" where
  "swapped committee x y = sorted_list_of_set ((set committee - {x}) \<union> {y})"

section \<open>The dual verifier\<close>

text \<open>A dictionary lookup \<open>d[key]\<close> raises \<open>KeyError\<close> on a missing key.\<close>

definition lookup :: "('k \<rightharpoonup> 'v) \<Rightarrow> 'k \<Rightarrow> error + 'v" where
  "lookup d key = (case d key of None \<Rightarrow> Inl KeyError | Some v \<Rightarrow> Inr v)"

text \<open>The key \<open>f"beta_{x}_{y}"\<close>.\<close>

definition beta_key :: "nat \<Rightarrow> nat \<Rightarrow> string" where
  "beta_key x y = ''beta_'' @ str_nat x @ ''_'' @ str_nat y"

text \<open>
  The dictionary comprehension
  \<open>{(x, y) : dual_solution[f"beta_{x}_{y}"] for x, y in swaps}\<close>, one swap after the other.
\<close>

fun collect_beta ::
  "(string \<rightharpoonup> rat) \<Rightarrow> (nat \<times> nat) list \<Rightarrow> (nat \<times> nat \<rightharpoonup> rat) \<Rightarrow> error + (nat \<times> nat \<rightharpoonup> rat)"
where
  "collect_beta dual_solution [] beta = Inr beta"
| "collect_beta dual_solution ((x, y) # rest) beta =
     (case lookup dual_solution (beta_key x y) of
        Inl e \<Rightarrow> Inl e
      | Inr v \<Rightarrow> collect_beta dual_solution rest (beta((x, y) \<mapsto> v)))"

text \<open>
  \<open>all(beta[x, y] >= 0 for ...)\<close>: the generator is consumed up to the first negative
  entry.
\<close>

fun all_beta_nonneg :: "(nat \<times> nat \<rightharpoonup> rat) \<Rightarrow> (nat \<times> nat) list \<Rightarrow> error + bool" where
  "all_beta_nonneg beta [] = Inr True"
| "all_beta_nonneg beta ((x, y) # rest) =
     (case lookup beta (x, y) of
        Inl e \<Rightarrow> Inl e
      | Inr b \<Rightarrow> if b \<ge> 0 then all_beta_nonneg beta rest else Inr False)"

text \<open>The inner loop \<open>for x, y in swaps: lhs += beta[x, y] * (...)\<close>.\<close>

fun add_swap_terms ::
  "nat list \<Rightarrow> (nat \<times> nat \<rightharpoonup> rat) \<Rightarrow> nat list \<Rightarrow> (nat \<times> nat) list \<Rightarrow> rat \<Rightarrow> error + rat"
where
  "add_swap_terms committee beta ballot [] lhs = Inr lhs"
| "add_swap_terms committee beta ballot ((x, y) # rest) lhs =
     (case lookup beta (x, y) of
        Inl e \<Rightarrow> Inl e
      | Inr b \<Rightarrow>
          add_swap_terms committee beta ballot rest
            (lhs + b * (harmonic_number (utility ballot (swapped committee x y))
                        - harmonic_number (utility ballot committee))))"

text \<open>
  The body of \<open>for ballot in ballots\<close> up to the comparison: the left-hand side of the
  ballot's dual constraint.
\<close>

definition ballot_lhs ::
  "nat \<Rightarrow> nat \<Rightarrow> nat list \<Rightarrow> rat \<Rightarrow> (nat \<times> nat \<rightharpoonup> rat) \<Rightarrow> rat \<Rightarrow> nat list \<Rightarrow> error + rat"
where
  "ballot_lhs num_alts k T alpha beta gamma ballot =
     (case add_swap_terms (pav_committee num_alts k) beta ballot (swaps num_alts k) alpha of
        Inl e \<Rightarrow> Inl e
      | Inr lhs \<Rightarrow>
          if utility ballot T > utility ballot (pav_committee num_alts k)
          then Inr (lhs - gamma) else Inr lhs)"

text \<open>
  The loop over the ballots. Standard output is a list of printed lines, threaded through
  the loop; the failed \<open>assert\<close> ends it with \<open>AssertionError\<close>.
\<close>

fun check_ballots ::
  "nat \<Rightarrow> nat \<Rightarrow> nat list \<Rightarrow> rat \<Rightarrow> (nat \<times> nat \<rightharpoonup> rat) \<Rightarrow> rat \<Rightarrow> (nat list \<rightharpoonup> rat)
     \<Rightarrow> nat list list \<Rightarrow> string list \<Rightarrow> (error + unit) \<times> string list"
where
  "check_ballots num_alts k T alpha beta gamma objective [] out = (Inr (), out)"
| "check_ballots num_alts k T alpha beta gamma objective (ballot # rest) out =
     (case ballot_lhs num_alts k T alpha beta gamma ballot of
        Inl e \<Rightarrow> (Inl e, out)
      | Inr lhs \<Rightarrow>
          (case lookup objective ballot of
             Inl e \<Rightarrow> (Inl e, out)
           | Inr rhs \<Rightarrow>
               if \<not> lhs \<ge> rhs
               then (Inl AssertionError,
                     out @ [''lhs = '' @ str_Fraction lhs @ '', rhs = '' @ str_Fraction rhs])
               else check_ballots num_alts k T alpha beta gamma objective rest out))"

definition verify_dual_solution ::
  "nat \<Rightarrow> nat \<Rightarrow> nat list \<Rightarrow> (string \<rightharpoonup> rat) \<Rightarrow> (nat list \<rightharpoonup> rat) \<Rightarrow> (error + rat) \<times> string list"
where
  "verify_dual_solution num_alts k T dual_solution objective =
     (case lookup dual_solution ''alpha'' of
        Inl e \<Rightarrow> (Inl e, [])
      | Inr alpha \<Rightarrow>
     (case collect_beta dual_solution (swaps num_alts k) Map.empty of
        Inl e \<Rightarrow> (Inl e, [])
      | Inr beta \<Rightarrow>
     (case lookup dual_solution ''gamma'' of
        Inl e \<Rightarrow> (Inl e, [])
      | Inr gamma \<Rightarrow>
     (case all_beta_nonneg beta
             [(x, y). x \<leftarrow> pav_committee num_alts k, y \<leftarrow> A num_alts,
                      y \<notin> set (pav_committee num_alts k)] of
        Inl e \<Rightarrow> (Inl e, [])
      | Inr nonneg \<Rightarrow>
          if \<not> nonneg then (Inl AssertionError, [])
          else if \<not> gamma \<ge> 0 then (Inl AssertionError, [])
          else
     (case check_ballots num_alts k T alpha beta gamma objective (ballots num_alts) [] of
        (Inl e, out) \<Rightarrow> (Inl e, out)
      | (Inr u, out) \<Rightarrow>
          (case Fraction (int (length T)) (int k) of
             Inl e \<Rightarrow> (Inl e, out)
           | Inr q \<Rightarrow> (Inr (alpha - q * gamma), out)))))))"

section \<open>The dual constraint as the spec writes it\<close>

text \<open>
  The swaps of a committee: ordered pairs of a member \<open>x\<close> and a non-member \<open>y\<close> of the
  ground set.
\<close>

definition swap_pairs :: "nat list \<Rightarrow> nat list \<Rightarrow> (nat \<times> nat) set" where
  "swap_pairs committee ground = set committee \<times> (set ground - set committee)"

text \<open>
  The left-hand side of the dual constraint of a ballot, following the spec's formula
  \<open>lhs(A) = alpha + \<Sum> beta_{x,y} \<cdot> [H(utility(A, swapped(committee,x,y))) - H(utility(A, committee))]
  - gamma \<cdot> [utility(A,T) > utility(A,committee)]\<close>. It is compared with what the
  verifier's loops compute.
\<close>

definition lhs_spec ::
  "nat list \<Rightarrow> nat list \<Rightarrow> nat list \<Rightarrow> rat \<Rightarrow> (nat \<times> nat \<Rightarrow> rat) \<Rightarrow> rat \<Rightarrow> nat list \<Rightarrow> rat"
where
  "lhs_spec ground committee T alpha beta gamma ballot =
     alpha
     + (\<Sum>(x, y) \<in> swap_pairs committee ground.
          beta (x, y) * (harmonic_number (utility ballot (swapped committee x y))
                         - harmonic_number (utility ballot committee)))
     - (if utility ballot T > utility ballot committee then gamma else 0)"

text \<open>
  The ballots whose dual constraint is violated, in iteration order (a definition for
  stating properties; the verifier does not compute it).
\<close>

definition violated_ballots ::
  "nat \<Rightarrow> nat \<Rightarrow> nat list \<Rightarrow> rat \<Rightarrow> (nat \<times> nat \<Rightarrow> rat) \<Rightarrow> rat \<Rightarrow> (nat list \<rightharpoonup> rat) \<Rightarrow> nat list list"
where
  "violated_ballots num_alts k T alpha beta gamma objective =
     filter (\<lambda>ballot. case objective ballot of
                        None \<Rightarrow> False
                      | Some rhs \<Rightarrow>
                          lhs_spec (A num_alts) (pav_committee num_alts k) T alpha beta gamma ballot < rhs)
       (ballots num_alts)"

section \<open>The LP instance builder\<close>

subsection \<open>Python floats\<close>

text \<open>
  A Python \<open>float\<close> is an IEEE double; dividing two \<open>int\<close>s with \<open>/\<close> and converting a
  \<open>Fraction\<close> with \<open>float\<close> both give the double nearest to the exact quotient, ties going
  to the even mantissa. \<open>float_of_rat q\<close> is the value of that double, as a rational:
  a 53-bit mantissa times a power of two. The numbers converted by the builder are \<open>0\<close> or
  lie between \<open>2^-63\<close> and \<open>2^63\<close> in magnitude (quotients of tuple lengths, harmonic numbers
  of utilities), where doubles neither overflow nor become subnormal; the exponent range is
  therefore not modelled.
\<close>

function bit_length :: "int \<Rightarrow> int" where
  "bit_length n = (if n \<le> 0 then 0 else bit_length (n div 2) + 1)"
  by auto

termination
  by (relation "measure nat") auto

declare bit_length.simps [simp del]

definition pow2 :: "int \<Rightarrow> rat" where
  "pow2 e = (if 0 \<le> e then 2 ^ nat e else 1 / 2 ^ nat (- e))"

definition round_half_even :: "rat \<Rightarrow> int" where
  "round_half_even q =
     (let f = \<lfloor>q\<rfloor>; r = q - of_int f
      in if r < 1 / 2 then f else if 1 / 2 < r then f + 1 else if even f then f else f + 1)"

definition float_of_rat :: "rat \<Rightarrow> rat" where
  "float_of_rat q =
     (if q = 0 then 0
      else
        (case quotient_of \<bar>q\<bar> of
           (n, d) \<Rightarrow>
             let s = bit_length n - bit_length d;
                 e = (if pow2 s \<le> \<bar>q\<bar> then s else s - 1) - 52;
                 mantissa = round_half_even (\<bar>q\<bar> / pow2 e)
             in (if q < 0 then - 1 else 1) * of_int mantissa * pow2 e))"

text \<open>\<open>a / b\<close> on two Python \<open>int\<close>s: a float, or \<open>ZeroDivisionError\<close>.\<close>

definition truediv :: "int \<Rightarrow> int \<Rightarrow> error + rat" where
  "truediv a b =
     (if b = 0 then Inl ZeroDivisionError else Inr (float_of_rat (of_int a / of_int b)))"

subsection \<open>The solver interface\<close>

text \<open>
  The part of the Gurobi interface that \<open>make_model\<close> uses, as data. A linear expression
  is a list of terms (coefficient, variable) and a constant; a variable is its index in the
  model. Gurobi keeps coefficients and constants as doubles: a variable alone has coefficient
  \<open>1.0\<close>, and a variable times a number has the number converted to a float. The rationals
  in an expression are the values of these doubles. Negating a double is exact.
\<close>

type_synonym var = nat

datatype LinExpr = LinExpr (terms: "(rat \<times> var) list") (const: rat)

datatype sense = LessEqual | Equal | GreaterEqual

datatype TempConstr = TempConstr LinExpr sense LinExpr

record Constr =
  ConstrName :: string
  row :: "(rat \<times> var) list"
  Sense :: sense
  RHS :: rat

record Model =
  OutputFlag :: int
  NumVars :: nat
  Constrs :: "Constr list"

definition new_Model :: Model where
  "new_Model = \<lparr>OutputFlag = 1, NumVars = 0, Constrs = []\<rparr>"

definition addVar :: "Model \<Rightarrow> var \<times> Model" where
  "addVar m = (NumVars m, m\<lparr>NumVars := NumVars m + 1\<rparr>)"

definition var_expr :: "var \<Rightarrow> LinExpr" where
  "var_expr v = LinExpr [(1, v)] 0"

text \<open>\<open>v * c\<close> for a variable \<open>v\<close> and a number \<open>c\<close> (here a \<open>Fraction\<close>).\<close>

definition var_times :: "var \<Rightarrow> rat \<Rightarrow> LinExpr" where
  "var_times v c = LinExpr [(float_of_rat c, v)] 0"

text \<open>A number used where an expression is expected (an \<open>int\<close> or a \<open>float\<close> here).\<close>

definition const_expr :: "rat \<Rightarrow> LinExpr" where
  "const_expr c = LinExpr [] c"

definition neg_expr :: "LinExpr \<Rightarrow> LinExpr" where
  "neg_expr e = LinExpr (map (\<lambda>(a, v). (- a, v)) (terms e)) (- const e)"

definition add_expr :: "LinExpr \<Rightarrow> LinExpr \<Rightarrow> LinExpr" where
  "add_expr e1 e2 = LinExpr (terms e1 @ terms e2) (const e1 + const e2)"

text \<open>
  \<open>quicksum(f(x) for x in xs)\<close>, where evaluating \<open>f(x)\<close> may raise: the terms are added
  in iteration order, starting from the empty expression.
\<close>

fun quicksum :: "('a \<Rightarrow> error + LinExpr) \<Rightarrow> 'a list \<Rightarrow> LinExpr \<Rightarrow> error + LinExpr" where
  "quicksum f [] acc = Inr acc"
| "quicksum f (x # xs) acc =
     (case f x of
        Inl e \<Rightarrow> Inl e
      | Inr t \<Rightarrow> quicksum f xs (add_expr acc t))"

text \<open>
  \<open>addConstr(lhs sense rhs, name)\<close> stores the row \<open>lhs - rhs\<close> with the constants moved
  to the right-hand side. A variable that occurs in both sides keeps its two terms in the row
  (what the solver makes of them is its own arithmetic). In \<open>make_model\<close> one of the two
  constants is always \<open>0\<close>, so their difference is exact in doubles too.
\<close>

fun addConstr :: "Model \<Rightarrow> TempConstr \<Rightarrow> string \<Rightarrow> Model" where
  "addConstr m (TempConstr l s r) name =
     m\<lparr>Constrs := Constrs m @
          [\<lparr>ConstrName = name, row = terms l @ terms (neg_expr r), Sense = s,
            RHS = const r - const l\<rparr>]\<rparr>"

text \<open>The terms of a variable in a stored row, in order.\<close>

definition terms_of :: "Constr \<Rightarrow> var \<Rightarrow> rat list" where
  "terms_of c v = map fst (filter (\<lambda>(a, u). u = v) (row c))"

text \<open>The coefficient of a variable that a stored row denotes: the exact sum of its terms.\<close>

definition coeff :: "Constr \<Rightarrow> var \<Rightarrow> rat" where
  "coeff c v = (\<Sum>(a, u) \<leftarrow> row c. if u = v then a else 0)"

text \<open>Whether an assignment of values to the variables satisfies a stored row, exactly.\<close>

definition satisfies :: "(var \<Rightarrow> rat) \<Rightarrow> Constr \<Rightarrow> bool" where
  "satisfies p c =
     (let row_value = (\<Sum>(a, u) \<leftarrow> row c. a * p u) in
      case Sense c of
        LessEqual \<Rightarrow> row_value \<le> RHS c
      | Equal \<Rightarrow> row_value = RHS c
      | GreaterEqual \<Rightarrow> row_value \<ge> RHS c)"

subsection \<open>Iteration over Python sets\<close>

text \<open>
  Python does not specify the order in which a set is iterated; CPython's order depends on
  the hash table and is not ascending in general (\<open>tuple({1} | {8})\<close> is \<open>(8, 1)\<close>). The
  builder therefore takes the iteration order as a parameter: a function from a set to the
  list of its elements. All that is known of it is that it lists every element once. (Each
  set that \<open>make_model\<close> iterates is built in one way from its elements, so its order is a
  function of the elements.) Sets of alternatives below \<open>8\<close> are iterated in ascending order
  by CPython, \<open>sorted_list_of_set\<close>: a table has at least \<open>8\<close> slots and a small integer
  sits in the slot of its value.
\<close>

definition enumerates :: "('a set \<Rightarrow> 'a list) \<Rightarrow> bool" where
  "enumerates iter \<longleftrightarrow> (\<forall>S. finite S \<longrightarrow> set (iter S) = S \<and> distinct (iter S))"

subsection \<open>The builder\<close>

text \<open>
  Modelled from the spec: the builder's notebook imports \<open>harmonic_number\<close> from
  \<open>utility_functions.py\<close>, which is not among the sources (the verifier's notebook defines
  its own, above). The spec gives \<open>H(r) = \<Sum>_{i=1}^{r} 1/i\<close> as an exact rational, with
  \<open>H(0) = 0\<close>.
\<close>

definition harmonic_number_imported :: "int \<Rightarrow> rat" where
  "harmonic_number_imported r = (\<Sum>i = 1..r. 1 / of_int i)"

text \<open>
  \<open>itertools.combinations(xs, r)\<close>: the \<open>r\<close>-element subsequences of \<open>xs\<close>, in
  lexicographic order of positions.
\<close>

fun combinations :: "'a list \<Rightarrow> nat \<Rightarrow> 'a list list" where
  "combinations xs 0 = [[]]"
| "combinations [] (Suc r) = []"
| "combinations (x # xs) (Suc r) = map ((#) x) (combinations xs r) @ combinations xs (Suc r)"

definition committees :: "nat \<Rightarrow> nat \<Rightarrow> nat list list" where
  "committees num_alts k = combinations (A num_alts) k"

text \<open>A dictionary comprehension \<open>{key: f(key) for key in keys}\<close>; a later key overwrites.\<close>

fun dict_comprehension :: "('a \<Rightarrow> error + 'v) \<Rightarrow> 'a list \<Rightarrow> ('a \<rightharpoonup> 'v) \<Rightarrow> error + ('a \<rightharpoonup> 'v)" where
  "dict_comprehension f [] d = Inr d"
| "dict_comprehension f (key # rest) d =
     (case f key of
        Inl e \<Rightarrow> Inl e
      | Inr v \<Rightarrow> dict_comprehension f rest (d(key \<mapsto> v)))"

text \<open>\<open>freq = {ballot: m.addVar() for ballot in ballots}\<close>: each ballot gets a new variable.\<close>

fun add_vars :: "Model \<Rightarrow> nat list list \<Rightarrow> (nat list \<rightharpoonup> var) \<Rightarrow> Model \<times> (nat list \<rightharpoonup> var)" where
  "add_vars m [] freq = (m, freq)"
| "add_vars m (ballot # rest) freq =
     (case addVar m of (v, m') \<Rightarrow> add_vars m' rest (freq(ballot \<mapsto> v)))"

text \<open>
  The loop \<open>for x, y in swaps: m.addConstr(score[W_xy[(x,y)]] <= opt_score, f"beta_{x}_{y}")\<close>.
  The lookup \<open>score[...]\<close> raises \<open>KeyError\<close> when the tuple \<open>W_xy[(x,y)]\<close> is not one of the
  tuples of \<open>committees\<close>.
\<close>

fun add_swap_constrs ::
  "Model \<Rightarrow> (nat list \<rightharpoonup> LinExpr) \<Rightarrow> (nat \<times> nat \<rightharpoonup> nat list) \<Rightarrow> LinExpr \<Rightarrow> (nat \<times> nat) list
     \<Rightarrow> error + Model"
where
  "add_swap_constrs m score W_xy opt_score [] = Inr m"
| "add_swap_constrs m score W_xy opt_score ((x, y) # rest) =
     (case lookup W_xy (x, y) of
        Inl e \<Rightarrow> Inl e
      | Inr w \<Rightarrow>
          (case lookup score w of
             Inl e \<Rightarrow> Inl e
           | Inr s \<Rightarrow>
               add_swap_constrs (addConstr m (TempConstr s LessEqual opt_score) (beta_key x y))
                 score W_xy opt_score rest))"

text \<open>
  The list \<open>swaps\<close> local to \<open>make_model\<close>:
  \<open>[(x,y) for x in pav_committee for y in set(A) - set(pav_committee)]\<close>, the inner loop
  running over a set.
\<close>

definition builder_swaps :: "(nat set \<Rightarrow> nat list) \<Rightarrow> nat \<Rightarrow> nat \<Rightarrow> (nat \<times> nat) list" where
  "builder_swaps iter_ints num_alts k =
     [(x, y). x \<leftarrow> pav_committee num_alts k,
              y \<leftarrow> iter_ints (set (A num_alts) - set (pav_committee num_alts k))]"

text \<open>
  \<open>make_model\<close>, given the iteration orders \<open>iter_ints\<close> of sets of alternatives and
  \<open>iter_tuples\<close> of sets of ballots. The parameter \<open>integral\<close> is not used by the source.
  \<open>utility\<close> is the import that the verifier's notebook uses too. The keys of \<open>score\<close> are
  the tuples of \<open>itertools.combinations\<close>, which are ascending; \<open>W_xy[(x,y)]\<close> is
  \<open>tuple((set(pav_committee) - {x}) | {y})\<close>, in set iteration order. The set
  \<open>ballots_preferring_T\<close> is iterated by \<open>quicksum\<close>. The right-hand side \<open>-len(T) / k\<close>
  is a float division.
\<close>

definition make_model ::
  "(nat set \<Rightarrow> nat list) \<Rightarrow> (nat list set \<Rightarrow> nat list list) \<Rightarrow> nat \<Rightarrow> nat \<Rightarrow> nat list \<Rightarrow> bool
     \<Rightarrow> error + (Model \<times> (nat list \<rightharpoonup> var))"
where
  "make_model iter_ints iter_tuples num_alts k T integral =
     (let m = new_Model;
          m = m\<lparr>OutputFlag := 0\<rparr>;
          (m, freq) = add_vars m (ballots num_alts) Map.empty
      in
      case quicksum (\<lambda>ballot. map_sum id var_expr (lookup freq ballot))
             (ballots num_alts) (const_expr 0) of
        Inl e \<Rightarrow> Inl e
      | Inr normalization \<Rightarrow>
     (let m = addConstr m (TempConstr normalization Equal (const_expr 1)) ''alpha'' in
      case dict_comprehension
             (\<lambda>committee.
                quicksum
                  (\<lambda>ballot. map_sum id
                     (\<lambda>v. var_times v (harmonic_number_imported (utility ballot committee)))
                     (lookup freq ballot))
                  (ballots num_alts) (const_expr 0))
             (committees num_alts k) Map.empty of
        Inl e \<Rightarrow> Inl e
      | Inr score \<Rightarrow>
     (case lookup score (pav_committee num_alts k) of
        Inl e \<Rightarrow> Inl e
      | Inr opt_score \<Rightarrow>
     (let swaps = builder_swaps iter_ints num_alts k in
      case dict_comprehension
             (\<lambda>(x, y). Inr (iter_ints ((set (pav_committee num_alts k) - {x}) \<union> {y})))
             swaps Map.empty of
        Inl e \<Rightarrow> Inl e
      | Inr W_xy \<Rightarrow>
     (case add_swap_constrs m score W_xy opt_score swaps of
        Inl e \<Rightarrow> Inl e
      | Inr m \<Rightarrow>
     (let ballots_preferring_T =
            set (filter (\<lambda>ballot. utility ballot T > utility ballot (pav_committee num_alts k))
                   (ballots num_alts))
      in
      case quicksum (\<lambda>ballot. map_sum id var_expr (lookup freq ballot))
             (iter_tuples ballots_preferring_T) (const_expr 0) of
        Inl e \<Rightarrow> Inl e
      | Inr preferring \<Rightarrow>
     (case truediv (- int (length T)) (int k) of
        Inl e \<Rightarrow> Inl e
      | Inr bound \<Rightarrow>
          Inr (addConstr m (TempConstr (neg_expr preferring) LessEqual (const_expr bound)) ''gamma'',
               freq))))))))"

subsection \<open>The rows of a model that the builder returns\<close>

text \<open>
  The row of a swap and the list of all rows, written out in terms of the variable \<open>vf b\<close> of
  each ballot \<open>b\<close>; when \<open>make_model\<close> returns a model, its rows are proved to be these.
\<close>

definition swap_row :: "(nat set \<Rightarrow> nat list) \<Rightarrow> nat \<Rightarrow> nat \<Rightarrow> (nat list \<Rightarrow> var) \<Rightarrow> nat \<times> nat \<Rightarrow> Constr" where
  "swap_row iter_ints num_alts k vf p =
     (case p of (x, y) \<Rightarrow>
        \<lparr>ConstrName = beta_key x y,
         row = map (\<lambda>b. (float_of_rat (harmonic_number_imported
                             (utility b (iter_ints ((set (pav_committee num_alts k) - {x}) \<union> {y})))),
                          vf b))
                 (ballots num_alts)
               @ map (\<lambda>b. (- float_of_rat (harmonic_number_imported
                                (utility b (pav_committee num_alts k))), vf b))
                   (ballots num_alts),
         Sense = LessEqual, RHS = 0\<rparr>)"

definition lp_rows ::
  "(nat set \<Rightarrow> nat list) \<Rightarrow> (nat list set \<Rightarrow> nat list list) \<Rightarrow> nat \<Rightarrow> nat \<Rightarrow> nat list
     \<Rightarrow> (nat list \<Rightarrow> var) \<Rightarrow> Constr list"
where
  "lp_rows iter_ints iter_tuples num_alts k T vf =
     \<lparr>ConstrName = ''alpha'', row = map (\<lambda>b. (1, vf b)) (ballots num_alts),
      Sense = Equal, RHS = 1\<rparr>
     # map (swap_row iter_ints num_alts k vf) (builder_swaps iter_ints num_alts k)
     @ [\<lparr>ConstrName = ''gamma'',
         row = map (\<lambda>b. (- 1, vf b))
                 (iter_tuples
                    (set (filter (\<lambda>ballot. utility ballot T > utility ballot (pav_committee num_alts k))
                            (ballots num_alts)))),
         Sense = LessEqual,
         RHS = float_of_rat (of_int (- int (length T)) / of_int (int k))\<rparr>]"

section \<open>Symmetry reduction: canonical sets\<close>

text \<open>
  Modelled from the spec: \<open>generate_wlog_partition\<close> and \<open>is_wlog\<close> are defined in
  \<open>utility_functions.py\<close>, which the notebooks import but which is not among the sources.
  Following the spec, the signature of an element is the list of indices of the distinguished
  sets that contain it; the partition groups the elements of the ground set by signature,
  each block in ground-set order and the blocks in order of first appearance. A candidate set
  is canonical when, in every block, the block's elements it contains are exactly the first
  ones of the block, as many as it contains.
\<close>

definition signature :: "nat list list \<Rightarrow> nat \<Rightarrow> nat list" where
  "signature distinguished_sets x =
     filter (\<lambda>i. x \<in> set (distinguished_sets ! i)) [0..<length distinguished_sets]"

definition generate_wlog_partition :: "nat list \<Rightarrow> nat list list \<Rightarrow> nat list list" where
  "generate_wlog_partition ground_set distinguished_sets =
     map (\<lambda>s. filter (\<lambda>x. signature distinguished_sets x = s) ground_set)
       (remdups (map (signature distinguished_sets) ground_set))"

definition is_wlog :: "nat list \<Rightarrow> nat list list \<Rightarrow> bool" where
  "is_wlog candidate_set wlog_partition =
     list_all
       (\<lambda>block. let chosen = filter (\<lambda>x. x \<in> set candidate_set) block
                in chosen = take (length chosen) block)
       wlog_partition"

text \<open>
  The orbit of a set under permutations that act within each block independently (a
  definition for stating properties; the program does not compute it).
\<close>

definition within_block_permutation :: "nat list list \<Rightarrow> (nat \<Rightarrow> nat) \<Rightarrow> bool" where
  "within_block_permutation wlog_partition p \<longleftrightarrow>
     bij p \<and> (\<forall>block \<in> set wlog_partition. p ` set block = set block)
     \<and> (\<forall>x. x \<notin> \<Union> (set ` set wlog_partition) \<longrightarrow> p x = x)"

definition orbit :: "nat list list \<Rightarrow> nat set \<Rightarrow> nat set set" where
  "orbit wlog_partition S = {p ` S | p. within_block_permutation wlog_partition p}"

section \<open>Properties of the primitives\<close>

lemma harmonic_number_nonpos: "r \<le> 0 \<Longrightarrow> harmonic_number r = 0"
  by (simp add: harmonic_number_def)

lemma harmonic_number_step:
  assumes "1 \<le> r"
  shows "harmonic_number r = harmonic_number (r - 1) + 1 / of_int r"
proof -
  have "[1..r] = [1..r - 1] @ [r]"
    using assms by (rule upto_rec2)
  then show ?thesis
    by (simp add: harmonic_number_def)
qed

lemma sum_list_map_pos:
  fixes f :: "'a \<Rightarrow> rat"
  assumes "xs \<noteq> []" and "\<And>x. x \<in> set xs \<Longrightarrow> 0 < f x"
  shows "0 < sum_list (map f xs)"
  using assms
proof (induction xs)
  case Nil
  then show ?case by simp
next
  case (Cons x xs)
  have "0 \<le> sum_list (map f xs)"
    by (rule sum_list_nonneg) (use Cons.prems in \<open>auto intro: less_imp_le\<close>)
  moreover have "0 < f x"
    using Cons.prems by simp
  ultimately show ?case by simp
qed

lemma harmonic_number_strict_mono:
  assumes "0 \<le> r" and "r < s"
  shows "harmonic_number r < harmonic_number s"
proof -
  have split: "[1..s] = [1..r] @ [r + 1..s]"
    using assms upto_split1 [of 1 "r + 1" s] by simp
  have "0 < sum_list (map (\<lambda>i. 1 / rat_of_int i) [r + 1..s])"
  proof (rule sum_list_map_pos)
    show "[r + 1..s] \<noteq> []"
      using assms by simp
  next
    fix x assume "x \<in> set [r + 1..s]"
    then show "0 < 1 / rat_of_int x"
      using assms by simp
  qed
  then show ?thesis
    by (simp add: harmonic_number_def split)
qed

text \<open>
  C7. \<open>harmonic_number(0) = 0\<close>; for every integer \<open>r \<ge> 1\<close>,
  \<open>harmonic_number(r) = harmonic_number(r-1) + 1/r\<close> as an exact rational, which makes it the
  sum of the reciprocals of \<open>1..r\<close>; and on its domain \<open>r \<ge> 0\<close> it is strictly increasing.
\<close>

theorem harmonic_number_recurrence_and_monotone:
  "harmonic_number 0 = 0
   \<and> (\<forall>r. 1 \<le> r \<longrightarrow> harmonic_number r = harmonic_number (r - 1) + 1 / of_int r)
   \<and> (\<forall>r. 0 \<le> r \<longrightarrow> harmonic_number r = (\<Sum>i = 1..r. 1 / of_int i))
   \<and> (\<forall>r s. 0 \<le> r \<and> r < s \<longrightarrow> harmonic_number r < harmonic_number s)"
proof (intro conjI allI impI)
  show "harmonic_number 0 = 0"
    by (rule harmonic_number_nonpos) simp
next
  fix r :: int assume "1 \<le> r"
  then show "harmonic_number r = harmonic_number (r - 1) + 1 / of_int r"
    by (rule harmonic_number_step)
next
  fix r :: int
  have "sum_list (map (\<lambda>i. 1 / rat_of_int i) [1..r]) = (\<Sum>i\<in>set [1..r]. 1 / rat_of_int i)"
    by (rule sum_list_distinct_conv_sum_set) simp
  then show "harmonic_number r = (\<Sum>i = 1..r. 1 / of_int i)"
    by (simp add: harmonic_number_def)
next
  fix r s :: int assume "0 \<le> r \<and> r < s"
  then show "harmonic_number r < harmonic_number s"
    by (simp add: harmonic_number_strict_mono)
qed

theorem harmonic_number_recurrence_and_monotone_witness:
  "harmonic_number 0 = 0
   \<and> (1::int) \<le> 2 \<and> harmonic_number 2 = harmonic_number (2 - 1) + 1 / of_int 2
   \<and> (0::int) \<le> 2 \<and> harmonic_number 2 = (\<Sum>i = 1..2. 1 / of_int i)
   \<and> (0::int) \<le> 2 \<and> (2::int) < 3 \<and> harmonic_number 2 < harmonic_number 3"
proof -
  note hn = harmonic_number_recurrence_and_monotone
  have a: "harmonic_number 0 = 0"
    using hn by (rule conjunct1)
  have b: "harmonic_number 2 = harmonic_number (2 - 1) + 1 / of_int 2"
    using hn [THEN conjunct2, THEN conjunct1, rule_format, of 2] by simp
  have c: "harmonic_number 2 = (\<Sum>i = 1..2. 1 / of_int i)"
    using hn [THEN conjunct2, THEN conjunct2, THEN conjunct1, rule_format, of 2] by simp
  have d: "harmonic_number 2 < harmonic_number 3"
    using hn [THEN conjunct2, THEN conjunct2, THEN conjunct2, rule_format, of 2 3] by simp
  show ?thesis
    using a b c d by simp
qed

text \<open>
  C8. For every ballot and every committee, \<open>utility(ballot, committee)\<close> is the cardinality
  of their intersection: an integer defined for all inputs, between \<open>0\<close> and the smaller of
  the two cardinalities (hence also of the two tuple lengths).
\<close>

theorem utility_card_inter_bounds:
  "utility ballot committee = int (card (set ballot \<inter> set committee))
   \<and> 0 \<le> utility ballot committee
   \<and> utility ballot committee \<le> min (int (card (set ballot))) (int (card (set committee)))
   \<and> utility ballot committee \<le> min (int (length ballot)) (int (length committee))"
proof -
  have 1: "card (set ballot \<inter> set committee) \<le> card (set ballot)"
    by (rule card_mono) simp_all
  have 2: "card (set ballot \<inter> set committee) \<le> card (set committee)"
    by (rule card_mono) simp_all
  have 3: "card (set ballot) \<le> length ballot" "card (set committee) \<le> length committee"
    by (rule card_length)+
  show ?thesis
    unfolding utility_def using 1 2 3 by simp
qed

text \<open>
  C10. On non-negative integer inputs \<open>LHS\<close> always returns a value: when \<open>a + b = 0\<close>
  (hence \<open>a = 0\<close>) it takes the guarded branch and returns the first term alone, otherwise
  both denominators \<open>a + b + 1\<close> and \<open>a + b\<close> are positive. The value is the two-term
  expression in which the second term counts as \<open>0\<close> when \<open>a + b = 0\<close>.
\<close>

theorem LHS_total_on_nonnegative:
  assumes "0 \<le> a" and "0 \<le> b" and "0 \<le> c" and "0 \<le> W_minus_T" and "0 \<le> T_minus_W"
  shows "LHS a b c W_minus_T T_minus_W =
           Inr (of_int ((W_minus_T - a) * c) / of_int (a + b + 1)
                - (if a + b = 0 then 0 else of_int (a * (T_minus_W - c)) / of_int (a + b)))
         \<and> (if a + b = 0
            then a = 0 \<and> LHS a b c W_minus_T T_minus_W =
                   Inr (of_int ((W_minus_T - a) * c) / of_int (a + b + 1))
            else 0 < a + b)
         \<and> 0 < a + b + 1"
proof -
  have pos: "a + b + 1 \<noteq> 0" "0 < a + b + 1"
    using assms by simp_all
  show ?thesis
  proof (cases "a + b = 0")
    case True
    then have "a = 0"
      using assms by simp
    with True pos show ?thesis
      by (simp add: LHS_def Fraction_def)
  next
    case False
    then have "0 < a + b"
      using assms by simp
    with False pos show ?thesis
      by (simp add: LHS_def Fraction_def)
  qed
qed

theorem LHS_total_on_nonnegative_witness:
  "(0::int) \<le> 0 \<and> (0::int) \<le> 3 \<and> (0::int) \<le> 2 \<and> (0::int) \<le> 5
   \<and> LHS 0 0 3 2 5 = Inr 6 \<and> LHS 1 1 3 2 5 = Inr 0"
proof -
  have "LHS 0 0 3 2 5 = Inr 6"
    using LHS_total_on_nonnegative [of 0 0 3 2 5] by simp
  moreover have "LHS 1 1 3 2 5 = Inr 0"
    using LHS_total_on_nonnegative [of 1 1 3 2 5] by simp
  ultimately show ?thesis by simp
qed

section \<open>The swaps and the ballot universe\<close>

lemma comprehension_as_product:
  "[(x, y). x \<leftarrow> xs, y \<leftarrow> ys, P y] = List.product xs (filter P ys)"
proof -
  have inner: "concat (map (\<lambda>y. if P y then [(x, y)] else []) ys) = map (Pair x) (filter P ys)" for x
    by (induction ys) simp_all
  show ?thesis
    by (simp add: inner product_concat_map)
qed

lemma swaps_as_product:
  "swaps num_alts k =
     List.product (pav_committee num_alts k)
       (filter (\<lambda>y. y \<notin> set (pav_committee num_alts k)) (A num_alts))"
  unfolding swaps_def by (rule comprehension_as_product)

lemma distinct_A: "distinct (A num_alts)"
  by (simp add: A_def)

lemma distinct_pav_committee: "distinct (pav_committee num_alts k)"
  by (simp add: pav_committee_def distinct_A)

lemma distinct_swaps: "distinct (swaps num_alts k)"
  by (simp add: swaps_as_product distinct_product distinct_pav_committee distinct_A)

lemma set_swaps: "set (swaps num_alts k) = swap_pairs (pav_committee num_alts k) (A num_alts)"
  by (auto simp: swaps_as_product swap_pairs_def)

lemma collect_beta_Inr:
  assumes "collect_beta dual_solution sw beta0 = Inr beta"
  shows "(\<forall>x y. (x, y) \<in> set sw \<longrightarrow>
            (\<exists>v. dual_solution (beta_key x y) = Some v \<and> beta (x, y) = Some v))
         \<and> (\<forall>p. p \<notin> set sw \<longrightarrow> beta p = beta0 p)"
  using assms
proof (induction sw arbitrary: beta0)
  case Nil
  then show ?case by simp
next
  case (Cons p rest)
  obtain x y where p: "p = (x, y)" by (cases p)
  from Cons.prems p obtain v where
    v: "dual_solution (beta_key x y) = Some v" and
    rec: "collect_beta dual_solution rest (beta0((x, y) \<mapsto> v)) = Inr beta"
    by (auto simp: lookup_def split: option.splits)
  note IH = Cons.IH [OF rec]
  have here: "beta (x, y) = Some v"
  proof (cases "(x, y) \<in> set rest")
    case True
    with IH obtain w where "dual_solution (beta_key x y) = Some w" "beta (x, y) = Some w"
      by blast
    with v show ?thesis by simp
  next
    case False
    with IH show ?thesis by simp
  qed
  show ?case
    using IH v here p by auto
qed

lemma add_swap_terms_total:
  assumes "\<forall>p \<in> set sw. beta p = Some (bf p)"
  shows "add_swap_terms committee beta ballot sw lhs =
           Inr (lhs + (\<Sum>(x, y) \<leftarrow> sw.
                  bf (x, y) * (harmonic_number (utility ballot (swapped committee x y))
                               - harmonic_number (utility ballot committee))))"
  using assms
proof (induction sw arbitrary: lhs)
  case Nil
  then show ?case by simp
next
  case (Cons p rest)
  obtain x y where p: "p = (x, y)" by (cases p)
  from Cons.prems p have "beta (x, y) = Some (bf (x, y))" by simp
  moreover from Cons.prems have "\<forall>p \<in> set rest. beta p = Some (bf p)" by simp
  ultimately show ?case
    using Cons.IH p by (simp add: lookup_def add.assoc)
qed

lemma ballot_lhs_eq_spec:
  assumes "\<forall>p \<in> set (swaps num_alts k). beta p = Some (bf p)"
  shows "ballot_lhs num_alts k T alpha beta gamma ballot =
           Inr (lhs_spec (A num_alts) (pav_committee num_alts k) T alpha bf gamma ballot)"
proof -
  have "(\<Sum>(x, y) \<leftarrow> swaps num_alts k.
            bf (x, y) * (harmonic_number (utility ballot (swapped (pav_committee num_alts k) x y))
                         - harmonic_number (utility ballot (pav_committee num_alts k))))
        = (\<Sum>(x, y) \<in> swap_pairs (pav_committee num_alts k) (A num_alts).
            bf (x, y) * (harmonic_number (utility ballot (swapped (pav_committee num_alts k) x y))
                         - harmonic_number (utility ballot (pav_committee num_alts k))))"
    using distinct_swaps [of num_alts k] set_swaps [of num_alts k]
    by (simp add: sum_list_distinct_conv_sum_set)
  then show ?thesis
    using add_swap_terms_total [OF assms]
    by (simp add: ballot_lhs_def lhs_spec_def)
qed

lemma collect_beta_total:
  assumes "\<forall>p \<in> set sw. dual_solution (beta_key (fst p) (snd p)) \<noteq> None"
  shows "\<exists>beta. collect_beta dual_solution sw beta0 = Inr beta"
  using assms
proof (induction sw arbitrary: beta0)
  case Nil
  then show ?case by simp
next
  case (Cons p rest)
  obtain x y where p: "p = (x, y)" by (cases p)
  from Cons.prems p obtain v where "dual_solution (beta_key x y) = Some v" by auto
  moreover from Cons.prems have "\<forall>p \<in> set rest. dual_solution (beta_key (fst p) (snd p)) \<noteq> None"
    by simp
  ultimately show ?case
    using Cons.IH p by (simp add: lookup_def)
qed

lemma all_beta_nonneg_total:
  assumes "\<forall>p \<in> set sw. beta p = Some (bf p)"
  shows "all_beta_nonneg beta sw = Inr (\<forall>p \<in> set sw. 0 \<le> bf p)"
  using assms
proof (induction sw)
  case Nil
  then show ?case by simp
next
  case (Cons p rest)
  obtain x y where p: "p = (x, y)" by (cases p)
  from Cons.prems p have "beta (x, y) = Some (bf (x, y))" by simp
  moreover from Cons.prems have "all_beta_nonneg beta rest = Inr (\<forall>p \<in> set rest. 0 \<le> bf p)"
    using Cons.IH by simp
  ultimately show ?case
    using p by (simp add: lookup_def)
qed

lemma check_ballots_all_ok:
  assumes "\<forall>ballot \<in> set bs. \<exists>lhs rhs.
             ballot_lhs num_alts k T alpha beta gamma ballot = Inr lhs
             \<and> objective ballot = Some rhs \<and> rhs \<le> lhs"
  shows "check_ballots num_alts k T alpha beta gamma objective bs out = (Inr (), out)"
  using assms by (induction bs) (auto simp: lookup_def)

lemma check_ballots_Inr_D:
  assumes "fst (check_ballots num_alts k T alpha beta gamma objective bs out) = Inr u"
  shows "\<forall>ballot \<in> set bs. \<exists>lhs rhs.
             ballot_lhs num_alts k T alpha beta gamma ballot = Inr lhs
             \<and> objective ballot = Some rhs \<and> rhs \<le> lhs"
  using assms
proof (induction bs)
  case Nil
  then show ?case by simp
next
  case (Cons b rest)
  from Cons.prems obtain lhs where lhs: "ballot_lhs num_alts k T alpha beta gamma b = Inr lhs"
    by (cases "ballot_lhs num_alts k T alpha beta gamma b") simp_all
  from Cons.prems lhs obtain rhs where rhs: "objective b = Some rhs"
    by (cases "objective b") (simp_all add: lookup_def)
  from Cons.prems lhs rhs have le: "rhs \<le> lhs"
    by (simp add: lookup_def split: if_splits)
  with Cons.prems lhs rhs
  have "fst (check_ballots num_alts k T alpha beta gamma objective rest out) = Inr u"
    by (simp add: lookup_def)
  with Cons.IH lhs rhs le show ?case by simp
qed

lemma check_ballots_first_violation:
  assumes "\<forall>ballot \<in> set pre. \<exists>lhs rhs.
             ballot_lhs num_alts k T alpha beta gamma ballot = Inr lhs
             \<and> objective ballot = Some rhs \<and> rhs \<le> lhs"
    and "ballot_lhs num_alts k T alpha beta gamma b = Inr lhs"
    and "objective b = Some rhs" and "lhs < rhs"
  shows "check_ballots num_alts k T alpha beta gamma objective (pre @ b # post) out =
           (Inl AssertionError,
            out @ [''lhs = '' @ str_Fraction lhs @ '', rhs = '' @ str_Fraction rhs])"
  using assms by (induction pre) (auto simp: lookup_def)

lemma set_ballots: "set (ballots num_alts) = set (subseqs [0..<num_alts])"
  by (simp add: ballots_def powerset_def A_def)

lemma length_ballots: "length (ballots num_alts) = 2 ^ num_alts"
  by (simp add: ballots_def powerset_def A_def length_subseqs)

lemma ballots_cover_subsets:
  assumes "S \<subseteq> {0..<num_alts}"
  shows "\<exists>ballot \<in> set (ballots num_alts). set ballot = S"
proof -
  have "S \<in> Pow (set [0..<num_alts])"
    using assms by simp
  then have "S \<in> set ` set (subseqs [0..<num_alts])"
    by (simp only: subseqs_powset)
  then show ?thesis
    by (auto simp: set_ballots)
qed

lemma distinct_ballots: "distinct (ballots num_alts)"
proof -
  have "distinct (map set (subseqs [0..<num_alts]))"
    by (rule distinct_set_subseqs) simp
  then have "distinct (subseqs [0..<num_alts])"
    by (simp add: distinct_map)
  then show ?thesis
    by (simp add: ballots_def powerset_def A_def)
qed

lemma verify_dual_solution_unfold:
  assumes alpha: "dual_solution ''alpha'' = Some alpha"
    and gamma: "dual_solution ''gamma'' = Some gamma"
    and beta: "collect_beta dual_solution (swaps num_alts k) Map.empty = Inr beta"
    and bf: "\<forall>p \<in> set (swaps num_alts k). beta p = Some (bf p)"
  shows "verify_dual_solution num_alts k T dual_solution objective =
           (if (\<exists>p \<in> set (swaps num_alts k). bf p < 0) \<or> gamma < 0
            then (Inl AssertionError, [])
            else (case check_ballots num_alts k T alpha beta gamma objective (ballots num_alts) [] of
                    (Inl e, out) \<Rightarrow> (Inl e, out)
                  | (Inr u, out) \<Rightarrow>
                      (case Fraction (int (length T)) (int k) of
                         Inl e \<Rightarrow> (Inl e, out)
                       | Inr q \<Rightarrow> (Inr (alpha - q * gamma), out))))"
proof -
  have nonneg: "all_beta_nonneg beta (swaps num_alts k) = Inr (\<forall>p \<in> set (swaps num_alts k). 0 \<le> bf p)"
    using bf by (rule all_beta_nonneg_total)
  have "all_beta_nonneg beta
          [(x, y). x \<leftarrow> pav_committee num_alts k, y \<leftarrow> A num_alts,
                   y \<notin> set (pav_committee num_alts k)]
        = Inr (\<forall>p \<in> set (swaps num_alts k). 0 \<le> bf p)"
    using nonneg unfolding swaps_def .
  then have *: "verify_dual_solution num_alts k T dual_solution objective =
     (if \<not> (\<forall>p \<in> set (swaps num_alts k). 0 \<le> bf p) then (Inl AssertionError, [])
      else if \<not> gamma \<ge> 0 then (Inl AssertionError, [])
      else (case check_ballots num_alts k T alpha beta gamma objective (ballots num_alts) [] of
              (Inl e, out) \<Rightarrow> (Inl e, out)
            | (Inr u, out) \<Rightarrow>
                (case Fraction (int (length T)) (int k) of
                   Inl e \<Rightarrow> (Inl e, out)
                 | Inr q \<Rightarrow> (Inr (alpha - q * gamma), out))))"
    unfolding verify_dual_solution_def
    by (simp only: alpha gamma beta lookup_def option.case sum.case)
  show ?thesis
  proof (cases "(\<exists>p \<in> set (swaps num_alts k). bf p < 0) \<or> gamma < 0")
    case True
    then have "\<not> (\<forall>p \<in> set (swaps num_alts k). 0 \<le> bf p) \<or> \<not> gamma \<ge> 0"
      by (auto simp: not_le)
    with True show ?thesis
      unfolding * by auto
  next
    case False
    then have "(\<forall>p \<in> set (swaps num_alts k). 0 \<le> bf p)" "gamma \<ge> 0"
      by (auto simp: not_less)
    with False show ?thesis
      unfolding * by simp
  qed
qed

lemma collect_beta_of_keys:
  assumes "\<forall>(x, y) \<in> set sw. dual_solution (beta_key x y) = Some (bf (x, y))"
  shows "\<exists>beta. collect_beta dual_solution sw Map.empty = Inr beta
               \<and> (\<forall>p \<in> set sw. beta p = Some (bf p))"
proof -
  have "\<forall>p \<in> set sw. dual_solution (beta_key (fst p) (snd p)) \<noteq> None"
    using assms by auto
  then obtain beta where beta: "collect_beta dual_solution sw Map.empty = Inr beta"
    using collect_beta_total by blast
  have "beta p = Some (bf p)" if "p \<in> set sw" for p
  proof -
    obtain x y where p: "p = (x, y)" by (cases p)
    with that collect_beta_Inr [OF beta] obtain v where
      "dual_solution (beta_key x y) = Some v" "beta (x, y) = Some v" by blast
    moreover from assms that p have "dual_solution (beta_key x y) = Some (bf (x, y))" by auto
    ultimately show ?thesis using p by simp
  qed
  with beta show ?thesis by blast
qed

lemma verify_dual_solution_success_keys:
  assumes "fst (verify_dual_solution num_alts k T dual_solution objective) = Inr v"
  shows "\<exists>alpha bf gamma.
           dual_solution ''alpha'' = Some alpha \<and> dual_solution ''gamma'' = Some gamma
           \<and> (\<forall>(x, y) \<in> set (swaps num_alts k). dual_solution (beta_key x y) = Some (bf (x, y)))"
proof -
  from assms obtain alpha where alpha: "dual_solution ''alpha'' = Some alpha"
    by (cases "dual_solution ''alpha''") (simp_all add: verify_dual_solution_def lookup_def)
  from assms alpha obtain beta where
    beta: "collect_beta dual_solution (swaps num_alts k) Map.empty = Inr beta"
    by (cases "collect_beta dual_solution (swaps num_alts k) Map.empty")
       (simp_all add: verify_dual_solution_def lookup_def)
  from assms alpha beta obtain gamma where gamma: "dual_solution ''gamma'' = Some gamma"
    by (cases "dual_solution ''gamma''") (simp_all add: verify_dual_solution_def lookup_def)
  have "\<forall>(x, y) \<in> set (swaps num_alts k).
          dual_solution (beta_key x y) = Some (the (dual_solution (beta_key x y)))"
    using collect_beta_Inr [OF beta] by fastforce
  then have "\<forall>(x, y) \<in> set (swaps num_alts k).
          dual_solution (beta_key x y) = Some ((\<lambda>(x, y). the (dual_solution (beta_key x y))) (x, y))"
    by simp
  with alpha gamma show ?thesis by blast
qed

lemma verify_dual_solution_success_D:
  assumes alpha: "dual_solution ''alpha'' = Some alpha"
    and gamma: "dual_solution ''gamma'' = Some gamma"
    and keys: "\<forall>(x, y) \<in> set (swaps num_alts k). dual_solution (beta_key x y) = Some (bf (x, y))"
    and ok: "fst (verify_dual_solution num_alts k T dual_solution objective) = Inr v"
  shows "(\<forall>p \<in> set (swaps num_alts k). 0 \<le> bf p) \<and> 0 \<le> gamma \<and> k \<noteq> 0
         \<and> v = alpha - of_int (int (length T)) / of_int (int k) * gamma
         \<and> (\<forall>ballot \<in> set (ballots num_alts). \<exists>rhs. objective ballot = Some rhs
               \<and> rhs \<le> lhs_spec (A num_alts) (pav_committee num_alts k) T alpha bf gamma ballot)"
proof -
  from collect_beta_of_keys [OF keys] obtain beta where
    beta: "collect_beta dual_solution (swaps num_alts k) Map.empty = Inr beta" and
    bf: "\<forall>p \<in> set (swaps num_alts k). beta p = Some (bf p)" by blast
  note unfold = verify_dual_solution_unfold [OF alpha gamma beta bf, of T objective]
  have signs: "\<not> ((\<exists>p \<in> set (swaps num_alts k). bf p < 0) \<or> gamma < 0)"
    using ok unfolding unfold by (auto split: if_splits)
  obtain r out where chk:
    "check_ballots num_alts k T alpha beta gamma objective (ballots num_alts) [] = (r, out)"
    by (cases "check_ballots num_alts k T alpha beta gamma objective (ballots num_alts) []")
  from ok signs chk obtain u where u: "r = Inr u"
    unfolding unfold by (cases r) auto
  from ok signs chk u have k: "k \<noteq> 0"
    unfolding unfold by (auto simp: Fraction_def split: if_splits)
  from ok signs chk u k have v: "v = alpha - of_int (int (length T)) / of_int (int k) * gamma"
    unfolding unfold by (auto simp: Fraction_def)
  have "fst (check_ballots num_alts k T alpha beta gamma objective (ballots num_alts) []) = Inr u"
    using chk u by simp
  from check_ballots_Inr_D [OF this]
  have "\<forall>ballot \<in> set (ballots num_alts). \<exists>rhs. objective ballot = Some rhs
               \<and> rhs \<le> lhs_spec (A num_alts) (pav_committee num_alts k) T alpha bf gamma ballot"
    by (simp add: ballot_lhs_eq_spec [OF bf])
  with signs k v show ?thesis
    by (auto simp: not_less)
qed

text \<open>
  C1. Whenever \<open>verify_dual_solution\<close> succeeds, the dual solution holds \<open>alpha\<close>, \<open>gamma\<close>
  and a \<open>beta\<close> for every swap, the returned value is \<open>alpha - (|T|/k) \<cdot> gamma\<close>, and for
  every ballot of the universe (one ballot for each of the \<open>2^|A|\<close> subsets of the ground
  set, none left out) the exact rational \<open>lhs\<close> of the spec's formula is at least the
  ballot's objective value.
\<close>

theorem verify_dual_solution_sound:
  assumes "fst (verify_dual_solution num_alts k T dual_solution objective) = Inr v"
  shows "\<exists>alpha beta gamma.
           dual_solution ''alpha'' = Some alpha \<and> dual_solution ''gamma'' = Some gamma
           \<and> (\<forall>(x, y) \<in> set (swaps num_alts k). dual_solution (beta_key x y) = Some (beta (x, y)))
           \<and> v = alpha - of_int (int (length T)) / of_int (int k) * gamma
           \<and> length (ballots num_alts) = 2 ^ length (A num_alts)
           \<and> (\<forall>S. S \<subseteq> set (A num_alts) \<longrightarrow>
                 (\<exists>ballot \<in> set (ballots num_alts). set ballot = S))
           \<and> (\<forall>ballot \<in> set (ballots num_alts). \<exists>rhs. objective ballot = Some rhs
                 \<and> lhs_spec (A num_alts) (pav_committee num_alts k) T alpha beta gamma ballot \<ge> rhs)"
proof -
  from verify_dual_solution_success_keys [OF assms] obtain alpha bf gamma where
    alpha: "dual_solution ''alpha'' = Some alpha" and
    gamma: "dual_solution ''gamma'' = Some gamma" and
    keys: "\<forall>(x, y) \<in> set (swaps num_alts k). dual_solution (beta_key x y) = Some (bf (x, y))"
    by blast
  note D = verify_dual_solution_success_D [OF alpha gamma keys assms]
  have len: "length (ballots num_alts) = 2 ^ length (A num_alts)"
    by (simp add: length_ballots A_def)
  have cover: "\<forall>S. S \<subseteq> set (A num_alts) \<longrightarrow> (\<exists>ballot \<in> set (ballots num_alts). set ballot = S)"
    using ballots_cover_subsets by (simp add: A_def)
  show ?thesis
    using alpha gamma keys D len cover by blast
qed

theorem verify_dual_solution_sound_witness:
  "fst (verify_dual_solution 2 1 [1]
          [''alpha'' \<mapsto> 1, ''beta_0_1'' \<mapsto> 1 / 2, ''gamma'' \<mapsto> 1 / 2]
          (\<lambda>ballot. Some (if ballot = [1] then 1 else 0))) = Inr (1 / 2)
   \<and> (\<exists>alpha beta gamma.
         [''alpha'' \<mapsto> 1, ''beta_0_1'' \<mapsto> 1 / 2, ''gamma'' \<mapsto> 1 / 2] ''alpha'' = Some alpha
         \<and> [''alpha'' \<mapsto> 1, ''beta_0_1'' \<mapsto> 1 / 2, ''gamma'' \<mapsto> 1 / 2] ''gamma'' = Some gamma
         \<and> (\<forall>(x, y) \<in> set (swaps 2 1).
               [''alpha'' \<mapsto> 1, ''beta_0_1'' \<mapsto> 1 / 2, ''gamma'' \<mapsto> 1 / 2] (beta_key x y)
                 = Some (beta (x, y)))
         \<and> 1 / 2 = alpha - of_int (int (length [1::nat])) / of_int (int 1) * gamma
         \<and> length (ballots 2) = 2 ^ length (A 2)
         \<and> (\<forall>S. S \<subseteq> set (A 2) \<longrightarrow> (\<exists>ballot \<in> set (ballots 2). set ballot = S))
         \<and> (\<forall>ballot \<in> set (ballots 2). \<exists>rhs.
               Some (if ballot = [1] then 1 else 0) = Some rhs
               \<and> lhs_spec (A 2) (pav_committee 2 1) [1] alpha beta gamma ballot \<ge> rhs))"
proof -
  have run: "fst (verify_dual_solution 2 1 [1]
          [''alpha'' \<mapsto> 1, ''beta_0_1'' \<mapsto> 1 / 2, ''gamma'' \<mapsto> 1 / 2]
          (\<lambda>ballot. Some (if ballot = [1] then 1 else 0))) = Inr (1 / 2)"
    by code_simp
  show ?thesis
    using run verify_dual_solution_sound [OF run] by (rule conjI)
qed

lemma verify_dual_solution_first_violation:
  assumes alpha: "dual_solution ''alpha'' = Some alpha"
    and gamma: "dual_solution ''gamma'' = Some gamma"
    and keys: "\<forall>(x, y) \<in> set (swaps num_alts k). dual_solution (beta_key x y) = Some (bf (x, y))"
    and signs: "\<forall>p \<in> set (swaps num_alts k). 0 \<le> bf p" "0 \<le> gamma"
    and split: "ballots num_alts = pre @ first # post"
    and pre: "\<forall>b \<in> set pre. \<exists>r. objective b = Some r
                \<and> r \<le> lhs_spec (A num_alts) (pav_committee num_alts k) T alpha bf gamma b"
    and first: "objective first = Some rhs"
      "lhs_spec (A num_alts) (pav_committee num_alts k) T alpha bf gamma first < rhs"
  shows "verify_dual_solution num_alts k T dual_solution objective =
           (Inl AssertionError,
            [''lhs = '' @ str_Fraction (lhs_spec (A num_alts) (pav_committee num_alts k) T alpha bf gamma first)
               @ '', rhs = '' @ str_Fraction rhs])"
proof -
  from collect_beta_of_keys [OF keys] obtain beta where
    beta: "collect_beta dual_solution (swaps num_alts k) Map.empty = Inr beta" and
    bf: "\<forall>p \<in> set (swaps num_alts k). beta p = Some (bf p)" by blast
  note lhs = ballot_lhs_eq_spec [OF bf, of T alpha gamma]
  have "check_ballots num_alts k T alpha beta gamma objective (pre @ first # post) [] =
          (Inl AssertionError,
           [] @ [''lhs = '' @ str_Fraction (lhs_spec (A num_alts) (pav_committee num_alts k) T alpha bf gamma first)
               @ '', rhs = '' @ str_Fraction rhs])"
    by (rule check_ballots_first_violation) (use pre first lhs in auto)
  then show ?thesis
    using signs split
    by (simp add: verify_dual_solution_unfold [OF alpha gamma beta bf] not_less [symmetric])
qed

text \<open>
  C3 (as amended). Whenever the dual constraint of some ballot is violated, the verifier fails.
  When the sign checks pass and the objective covers every ballot, it fails with
  \<open>AssertionError\<close> at the first violated ballot in iteration order, after printing exactly
  one line that holds the computed \<open>lhs\<close> and the expected bound of that ballot. The line
  does not name the ballot.
\<close>

theorem verify_dual_solution_violation_fails:
  assumes alpha: "dual_solution ''alpha'' = Some alpha"
    and gamma: "dual_solution ''gamma'' = Some gamma"
    and keys: "\<forall>(x, y) \<in> set (swaps num_alts k). dual_solution (beta_key x y) = Some (beta (x, y))"
    and ballot: "ballot \<in> set (ballots num_alts)"
    and bound: "objective ballot = Some bound"
    and viol: "lhs_spec (A num_alts) (pav_committee num_alts k) T alpha beta gamma ballot < bound"
  shows "(\<exists>e. fst (verify_dual_solution num_alts k T dual_solution objective) = Inl e)
         \<and> ((\<forall>p \<in> set (swaps num_alts k). 0 \<le> beta p) \<and> 0 \<le> gamma
              \<and> set (ballots num_alts) \<subseteq> dom objective \<longrightarrow>
            (\<exists>pre first post rhs.
               ballots num_alts = pre @ first # post
               \<and> (\<forall>b \<in> set pre. \<exists>r. objective b = Some r
                     \<and> r \<le> lhs_spec (A num_alts) (pav_committee num_alts k) T alpha beta gamma b)
               \<and> objective first = Some rhs
               \<and> lhs_spec (A num_alts) (pav_committee num_alts k) T alpha beta gamma first < rhs
               \<and> verify_dual_solution num_alts k T dual_solution objective =
                   (Inl AssertionError,
                    [''lhs = ''
                       @ str_Fraction (lhs_spec (A num_alts) (pav_committee num_alts k) T alpha beta gamma first)
                       @ '', rhs = '' @ str_Fraction rhs])))"
proof (intro conjI impI)
  show "\<exists>e. fst (verify_dual_solution num_alts k T dual_solution objective) = Inl e"
  proof (cases "fst (verify_dual_solution num_alts k T dual_solution objective)")
    case (Inl e)
    then show ?thesis by blast
  next
    case (Inr v)
    from verify_dual_solution_success_D [OF alpha gamma keys Inr] ballot
    obtain rhs where "objective ballot = Some rhs"
      "rhs \<le> lhs_spec (A num_alts) (pav_committee num_alts k) T alpha beta gamma ballot"
      by blast
    with bound viol show ?thesis by simp
  qed
next
  let ?lhs = "lhs_spec (A num_alts) (pav_committee num_alts k) T alpha beta gamma"
  let ?bad = "\<lambda>b. \<not> (\<exists>r. objective b = Some r \<and> r \<le> ?lhs b)"
  assume pre: "(\<forall>p \<in> set (swaps num_alts k). 0 \<le> beta p) \<and> 0 \<le> gamma
                 \<and> set (ballots num_alts) \<subseteq> dom objective"
  have "\<exists>b \<in> set (ballots num_alts). ?bad b"
    using ballot bound viol by (intro bexI [of _ ballot]) auto
  from split_list_first_prop [OF this] obtain pre first post where
    split: "ballots num_alts = pre @ first # post" and bad: "?bad first" and
    good: "\<forall>b \<in> set pre. \<not> ?bad b" by blast
  from split pre obtain rhs where rhs: "objective first = Some rhs"
    by (auto simp: subset_iff dom_def)
  with bad have less: "?lhs first < rhs" by (simp add: not_le)
  have "verify_dual_solution num_alts k T dual_solution objective =
          (Inl AssertionError, [''lhs = '' @ str_Fraction (?lhs first) @ '', rhs = '' @ str_Fraction rhs])"
  proof (rule verify_dual_solution_first_violation [where bf = beta and pre = pre and post = post])
    show "\<forall>b \<in> set pre. \<exists>r. objective b = Some r \<and> r \<le> ?lhs b"
      using good by simp
  qed (use alpha gamma keys pre split rhs less in simp_all)
  with split good rhs less
  show "\<exists>pre first post rhs.
               ballots num_alts = pre @ first # post
               \<and> (\<forall>b \<in> set pre. \<exists>r. objective b = Some r \<and> r \<le> ?lhs b)
               \<and> objective first = Some rhs
               \<and> ?lhs first < rhs
               \<and> verify_dual_solution num_alts k T dual_solution objective =
                   (Inl AssertionError,
                    [''lhs = '' @ str_Fraction (?lhs first) @ '', rhs = '' @ str_Fraction rhs])"
    by blast
qed

theorem verify_dual_solution_violation_fails_witness:
  "[''alpha'' \<mapsto> 0, ''beta_0_1'' \<mapsto> 0, ''gamma'' \<mapsto> (0::rat)] ''alpha'' = Some 0
   \<and> [''alpha'' \<mapsto> 0, ''beta_0_1'' \<mapsto> 0, ''gamma'' \<mapsto> (0::rat)] ''gamma'' = Some 0
   \<and> swaps 2 1 = [(0, 1)]
   \<and> [''alpha'' \<mapsto> 0, ''beta_0_1'' \<mapsto> 0, ''gamma'' \<mapsto> (0::rat)] (beta_key 0 1) = Some 0
   \<and> [0] \<in> set (ballots 2)
   \<and> [[] \<mapsto> 0, [0] \<mapsto> 1, [0, 1] \<mapsto> 0, [1::nat] \<mapsto> (0::rat)] [0] = Some 1
   \<and> lhs_spec (A 2) (pav_committee 2 1) [1] 0 (\<lambda>p. 0) 0 [0] < 1
   \<and> (0::rat) \<le> 0
   \<and> set (ballots 2) \<subseteq> dom [[] \<mapsto> 0, [0] \<mapsto> 1, [0, 1] \<mapsto> 0, [1] \<mapsto> (0::rat)]
   \<and> (\<exists>e. fst (verify_dual_solution 2 1 [1]
                  [''alpha'' \<mapsto> 0, ''beta_0_1'' \<mapsto> 0, ''gamma'' \<mapsto> 0]
                  [[] \<mapsto> 0, [0] \<mapsto> 1, [0, 1] \<mapsto> 0, [1] \<mapsto> 0]) = Inl e)
   \<and> (\<exists>pre first post rhs.
         ballots 2 = pre @ first # post
         \<and> (\<forall>b \<in> set pre. \<exists>r. [[] \<mapsto> 0, [0] \<mapsto> 1, [0, 1] \<mapsto> 0, [1] \<mapsto> 0] b = Some r
               \<and> r \<le> lhs_spec (A 2) (pav_committee 2 1) [1] 0 (\<lambda>p. 0) 0 b)
         \<and> [[] \<mapsto> 0, [0] \<mapsto> 1, [0, 1] \<mapsto> 0, [1] \<mapsto> 0] first = Some rhs
         \<and> lhs_spec (A 2) (pav_committee 2 1) [1] 0 (\<lambda>p. 0) 0 first < rhs
         \<and> verify_dual_solution 2 1 [1]
              [''alpha'' \<mapsto> 0, ''beta_0_1'' \<mapsto> 0, ''gamma'' \<mapsto> 0]
              [[] \<mapsto> 0, [0] \<mapsto> 1, [0, 1] \<mapsto> 0, [1] \<mapsto> 0] =
             (Inl AssertionError,
              [''lhs = ''
                 @ str_Fraction (lhs_spec (A 2) (pav_committee 2 1) [1] 0 (\<lambda>p. 0) 0 first)
                 @ '', rhs = '' @ str_Fraction rhs]))"
proof -
  let ?ds = "[''alpha'' \<mapsto> 0, ''beta_0_1'' \<mapsto> 0, ''gamma'' \<mapsto> (0::rat)]"
  let ?obj = "[[] \<mapsto> 0, [0] \<mapsto> 1, [0, 1] \<mapsto> 0, [1::nat] \<mapsto> (0::rat)]"
  have h1: "?ds ''alpha'' = Some 0" by simp
  have h2: "?ds ''gamma'' = Some 0" by simp
  have sw: "swaps 2 1 = [(0, 1)]" by code_simp
  have key: "?ds (beta_key 0 1) = Some 0" by code_simp
  have bk: "beta_key 0 (Suc 0) = ''beta_0_1''" by code_simp
  have h3: "\<forall>(x, y) \<in> set (swaps 2 1). ?ds (beta_key x y) = Some ((\<lambda>p. 0) (x, y))"
    unfolding sw by (simp add: bk)
  have bs: "ballots 2 = [[], [0], [0, 1], [1]]" by code_simp
  have h4: "[0] \<in> set (ballots 2)" by (simp add: bs)
  have h5: "?obj [0] = Some 1" by simp
  have h6: "lhs_spec (A 2) (pav_committee 2 1) [1] 0 (\<lambda>p. 0) 0 [0] < 1" by code_simp
  have a1: "\<forall>p \<in> set (swaps 2 1). 0 \<le> (\<lambda>p. 0::rat) p" by simp
  have a2: "set (ballots 2) \<subseteq> dom ?obj" by (simp add: bs)
  note c = verify_dual_solution_violation_fails
    [where dual_solution = ?ds and beta = "\<lambda>p. 0" and objective = ?obj and T = "[1]",
     OF h1 h2 h3 h4 h5 h6]
  from c have c1: "\<exists>e. fst (verify_dual_solution 2 1 [1] ?ds ?obj) = Inl e"
    by (rule conjunct1)
  from c [THEN conjunct2] a1 a2
  have c2: "\<exists>pre first post rhs.
         ballots 2 = pre @ first # post
         \<and> (\<forall>b \<in> set pre. \<exists>r. ?obj b = Some r
               \<and> r \<le> lhs_spec (A 2) (pav_committee 2 1) [1] 0 (\<lambda>p. 0) 0 b)
         \<and> ?obj first = Some rhs
         \<and> lhs_spec (A 2) (pav_committee 2 1) [1] 0 (\<lambda>p. 0) 0 first < rhs
         \<and> verify_dual_solution 2 1 [1] ?ds ?obj =
             (Inl AssertionError,
              [''lhs = ''
                 @ str_Fraction (lhs_spec (A 2) (pav_committee 2 1) [1] 0 (\<lambda>p. 0) 0 first)
                 @ '', rhs = '' @ str_Fraction rhs])"
    by simp
  show ?thesis
    by (intro conjI; (rule h1 h2 sw key h4 h5 h6 a2 c1 c2 order_refl))
qed

text \<open>
  C3 as stated fails: two runs whose only violated ballots differ (\<open>(0,)\<close> in the first,
  \<open>(1,)\<close> in the second) fail with the same exception and print the same line, so the
  report does not identify the offending ballot.
\<close>

theorem verify_dual_solution_report_omits_ballot:
  "verify_dual_solution 2 1 [1]
      [''alpha'' \<mapsto> 0, ''beta_0_1'' \<mapsto> 0, ''gamma'' \<mapsto> 0]
      [[] \<mapsto> 0, [0] \<mapsto> 1, [0, 1] \<mapsto> 0, [1] \<mapsto> 0]
     = (Inl AssertionError, [''lhs = 0, rhs = 1''])
   \<and> verify_dual_solution 2 1 [1]
      [''alpha'' \<mapsto> 0, ''beta_0_1'' \<mapsto> 0, ''gamma'' \<mapsto> 0]
      [[] \<mapsto> 0, [0] \<mapsto> 0, [0, 1] \<mapsto> 0, [1] \<mapsto> 1]
     = (Inl AssertionError, [''lhs = 0, rhs = 1''])
   \<and> violated_ballots 2 1 [1] 0 (\<lambda>p. 0) 0 [[] \<mapsto> 0, [0] \<mapsto> 1, [0, 1] \<mapsto> 0, [1] \<mapsto> 0] = [[0]]
   \<and> violated_ballots 2 1 [1] 0 (\<lambda>p. 0) 0 [[] \<mapsto> 0, [0] \<mapsto> 0, [0, 1] \<mapsto> 0, [1] \<mapsto> 1] = [[1]]"
  by code_simp

text \<open>
  C4. For a dual solution that holds every key: if some \<open>beta\<close> is negative or \<open>gamma\<close> is
  negative, the verifier fails with \<open>AssertionError\<close> and prints nothing, whatever the
  objective is (no ballot is looked at); if all are non-negative, its result is that of the
  loop over the ballots, followed by the dual objective.
\<close>

theorem verify_dual_solution_sign_check:
  assumes alpha: "dual_solution ''alpha'' = Some alpha"
    and gamma: "dual_solution ''gamma'' = Some gamma"
    and keys: "\<forall>(x, y) \<in> set (swaps num_alts k). dual_solution (beta_key x y) = Some (beta (x, y))"
  shows "((\<exists>p \<in> set (swaps num_alts k). beta p < 0) \<or> gamma < 0 \<longrightarrow>
            verify_dual_solution num_alts k T dual_solution objective = (Inl AssertionError, []))
         \<and> ((\<forall>p \<in> set (swaps num_alts k). 0 \<le> beta p) \<and> 0 \<le> gamma \<longrightarrow>
            (\<exists>bmap. collect_beta dual_solution (swaps num_alts k) Map.empty = Inr bmap
               \<and> (\<forall>p \<in> set (swaps num_alts k). bmap p = Some (beta p))
               \<and> verify_dual_solution num_alts k T dual_solution objective =
                   (case check_ballots num_alts k T alpha bmap gamma objective (ballots num_alts) [] of
                      (Inl e, out) \<Rightarrow> (Inl e, out)
                    | (Inr u, out) \<Rightarrow>
                        (case Fraction (int (length T)) (int k) of
                           Inl e \<Rightarrow> (Inl e, out)
                         | Inr q \<Rightarrow> (Inr (alpha - q * gamma), out)))))"
proof -
  from collect_beta_of_keys [OF keys] obtain bmap where
    bmap: "collect_beta dual_solution (swaps num_alts k) Map.empty = Inr bmap" and
    bf: "\<forall>p \<in> set (swaps num_alts k). bmap p = Some (beta p)" by blast
  note unfold = verify_dual_solution_unfold [OF alpha gamma bmap bf, of T objective]
  have neg: "verify_dual_solution num_alts k T dual_solution objective = (Inl AssertionError, [])"
    if "(\<exists>p \<in> set (swaps num_alts k). beta p < 0) \<or> gamma < 0"
    using that unfolding unfold by simp
  have pos: "verify_dual_solution num_alts k T dual_solution objective =
                   (case check_ballots num_alts k T alpha bmap gamma objective (ballots num_alts) [] of
                      (Inl e, out) \<Rightarrow> (Inl e, out)
                    | (Inr u, out) \<Rightarrow>
                        (case Fraction (int (length T)) (int k) of
                           Inl e \<Rightarrow> (Inl e, out)
                         | Inr q \<Rightarrow> (Inr (alpha - q * gamma), out)))"
    if "(\<forall>p \<in> set (swaps num_alts k). 0 \<le> beta p) \<and> 0 \<le> gamma"
  proof -
    from that have "\<not> ((\<exists>p \<in> set (swaps num_alts k). beta p < 0) \<or> gamma < 0)"
      by (auto simp: not_less)
    then show ?thesis
      unfolding unfold by simp
  qed
  show ?thesis
    using neg pos bmap bf by blast
qed

theorem verify_dual_solution_sign_check_witness:
  "[''alpha'' \<mapsto> 1, ''beta_0_1'' \<mapsto> 0, ''gamma'' \<mapsto> - (1::rat)] ''alpha'' = Some 1
   \<and> [''alpha'' \<mapsto> 1, ''beta_0_1'' \<mapsto> 0, ''gamma'' \<mapsto> - (1::rat)] ''gamma'' = Some (- 1)
   \<and> swaps 2 1 = [(0, 1)]
   \<and> [''alpha'' \<mapsto> 1, ''beta_0_1'' \<mapsto> 0, ''gamma'' \<mapsto> - (1::rat)] (beta_key 0 1) = Some 0
   \<and> - (1::rat) < 0
   \<and> verify_dual_solution 2 1 [1]
         [''alpha'' \<mapsto> 1, ''beta_0_1'' \<mapsto> 0, ''gamma'' \<mapsto> - 1] Map.empty
       = (Inl AssertionError, [])
   \<and> [''alpha'' \<mapsto> 1, ''beta_0_1'' \<mapsto> 1 / 2, ''gamma'' \<mapsto> 1 / (2::rat)] ''alpha'' = Some 1
   \<and> [''alpha'' \<mapsto> 1, ''beta_0_1'' \<mapsto> 1 / 2, ''gamma'' \<mapsto> 1 / (2::rat)] ''gamma'' = Some (1 / 2)
   \<and> [''alpha'' \<mapsto> 1, ''beta_0_1'' \<mapsto> 1 / 2, ''gamma'' \<mapsto> 1 / (2::rat)] (beta_key 0 1) = Some (1 / 2)
   \<and> (0::rat) \<le> 1 / 2
   \<and> (\<exists>bmap. collect_beta [''alpha'' \<mapsto> 1, ''beta_0_1'' \<mapsto> 1 / 2, ''gamma'' \<mapsto> 1 / 2]
                 (swaps 2 1) Map.empty = Inr bmap
          \<and> (\<forall>p \<in> set (swaps 2 1). bmap p = Some (1 / 2))
          \<and> verify_dual_solution 2 1 [1]
                [''alpha'' \<mapsto> 1, ''beta_0_1'' \<mapsto> 1 / 2, ''gamma'' \<mapsto> 1 / 2]
                [[] \<mapsto> 0, [0] \<mapsto> 0, [0, 1] \<mapsto> 0, [1] \<mapsto> 1] =
              (case check_ballots 2 1 [1] 1 bmap (1 / 2)
                      [[] \<mapsto> 0, [0] \<mapsto> 0, [0, 1] \<mapsto> 0, [1] \<mapsto> 1] (ballots 2) [] of
                 (Inl e, out) \<Rightarrow> (Inl e, out)
               | (Inr u, out) \<Rightarrow>
                   (case Fraction (int (length [1::nat])) (int 1) of
                      Inl e \<Rightarrow> (Inl e, out)
                    | Inr q \<Rightarrow> (Inr (1 - q * (1 / 2)), out))))"
proof -
  let ?neg = "[''alpha'' \<mapsto> 1, ''beta_0_1'' \<mapsto> 0, ''gamma'' \<mapsto> - (1::rat)]"
  let ?pos = "[''alpha'' \<mapsto> 1, ''beta_0_1'' \<mapsto> 1 / 2, ''gamma'' \<mapsto> 1 / (2::rat)]"
  let ?obj = "[[] \<mapsto> 0, [0] \<mapsto> 0, [0, 1] \<mapsto> 0, [1::nat] \<mapsto> (1::rat)]"
  have sw: "swaps 2 1 = [(0, 1)]" by code_simp
  have bk: "beta_key 0 (Suc 0) = ''beta_0_1''" by code_simp
  have n1: "?neg ''alpha'' = Some 1" by simp
  have n2: "?neg ''gamma'' = Some (- 1)" by simp
  have n3: "?neg (beta_key 0 1) = Some 0" by (simp add: bk)
  have n4: "\<forall>(x, y) \<in> set (swaps 2 1). ?neg (beta_key x y) = Some ((\<lambda>p. 0) (x, y))"
    unfolding sw by (simp add: bk)
  have n5: "- (1::rat) < 0" by simp
  have n6: "verify_dual_solution 2 1 [1] ?neg Map.empty = (Inl AssertionError, [])"
    using verify_dual_solution_sign_check
      [where dual_solution = ?neg and beta = "\<lambda>p. 0" and objective = Map.empty and T = "[1]",
       OF n1 n2 n4, THEN conjunct1] n5
    by blast
  have p1: "?pos ''alpha'' = Some 1" by simp
  have p2: "?pos ''gamma'' = Some (1 / 2)" by simp
  have p3: "?pos (beta_key 0 1) = Some (1 / 2)" by (simp add: bk)
  have p4: "\<forall>(x, y) \<in> set (swaps 2 1). ?pos (beta_key x y) = Some ((\<lambda>p. 1 / 2) (x, y))"
    unfolding sw by (simp add: bk)
  have p5: "(0::rat) \<le> 1 / 2" by simp
  have p6: "\<exists>bmap. collect_beta ?pos (swaps 2 1) Map.empty = Inr bmap
          \<and> (\<forall>p \<in> set (swaps 2 1). bmap p = Some (1 / 2))
          \<and> verify_dual_solution 2 1 [1] ?pos ?obj =
              (case check_ballots 2 1 [1] 1 bmap (1 / 2) ?obj (ballots 2) [] of
                 (Inl e, out) \<Rightarrow> (Inl e, out)
               | (Inr u, out) \<Rightarrow>
                   (case Fraction (int (length [1::nat])) (int 1) of
                      Inl e \<Rightarrow> (Inl e, out)
                    | Inr q \<Rightarrow> (Inr (1 - q * (1 / 2)), out)))"
    using verify_dual_solution_sign_check
      [where dual_solution = ?pos and beta = "\<lambda>p. 1 / 2" and objective = ?obj and T = "[1]",
       OF p1 p2 p4, THEN conjunct2] p5
    by simp
  show ?thesis
    by (intro conjI; (rule sw n1 n2 n3 n5 n6 p1 p2 p3 p5 p6))
qed

section \<open>The builder's model\<close>

lemma add_vars_result:
  assumes "distinct bs" and "add_vars m bs freq0 = (m', freq)"
  shows "m' = m\<lparr>NumVars := NumVars m + length bs\<rparr>
         \<and> (\<forall>i < length bs. freq (bs ! i) = Some (NumVars m + i))
         \<and> (\<forall>b. b \<notin> set bs \<longrightarrow> freq b = freq0 b)"
  using assms
proof (induction bs arbitrary: m freq0)
  case Nil
  then show ?case by simp
next
  case (Cons b rest)
  let ?m1 = "m\<lparr>NumVars := NumVars m + 1\<rparr>"
  from Cons.prems have rec: "add_vars ?m1 rest (freq0(b \<mapsto> NumVars m)) = (m', freq)"
    by (simp add: addVar_def)
  from Cons.prems have d: "distinct rest" and nb: "b \<notin> set rest" by simp_all
  note IH = Cons.IH [OF d rec]
  have m': "m' = m\<lparr>NumVars := NumVars m + length (b # rest)\<rparr>"
    using IH by simp
  have idx: "freq ((b # rest) ! i) = Some (NumVars m + i)" if "i < length (b # rest)" for i
  proof (cases i)
    case 0
    with IH nb show ?thesis by simp
  next
    case (Suc j)
    with that IH show ?thesis by simp
  qed
  have other: "freq c = freq0 c" if "c \<notin> set (b # rest)" for c
    using that IH by simp
  from m' idx other show ?case by blast
qed

lemma quicksum_total:
  assumes "\<forall>x \<in> set xs. f x = Inr (g x)"
  shows "quicksum f xs acc =
           Inr (LinExpr (terms acc @ concat (map (\<lambda>x. terms (g x)) xs))
                        (const acc + sum_list (map (\<lambda>x. const (g x)) xs)))"
  using assms
proof (induction xs arbitrary: acc)
  case Nil
  then show ?case by simp
next
  case (Cons x xs)
  then show ?case
    by (simp add: add_expr_def add.assoc)
qed

lemma dict_comprehension_total:
  assumes "\<forall>key \<in> set keys. f key = Inr (g key)"
  shows "dict_comprehension f keys d = Inr (\<lambda>x. if x \<in> set keys then Some (g x) else d x)"
  using assms
proof (induction keys arbitrary: d)
  case Nil
  then show ?case by simp
next
  case (Cons key rest)
  have "(\<lambda>x. if x \<in> set rest then Some (g x) else (d(key \<mapsto> g key)) x)
        = (\<lambda>x. if x \<in> set (key # rest) then Some (g x) else d x)"
    by (auto simp: fun_eq_iff)
  with Cons show ?case by simp
qed

lemma filter_in_combinations:
  "filter P xs \<in> set (combinations xs (length (filter P xs)))"
proof (induction xs)
  case Nil
  then show ?case by simp
next
  case (Cons x xs)
  show ?case
  proof (cases "P x")
    case True
    with Cons show ?thesis by simp
  next
    case False
    show ?thesis
    proof (cases "length (filter P xs)")
      case 0
      with False show ?thesis by simp
    next
      case (Suc r)
      with False Cons show ?thesis by simp
    qed
  qed
qed

lemma sorted_sublist_in_combinations:
  assumes "sorted xs" "distinct xs" "sorted ys" "distinct ys" "set ys \<subseteq> set xs"
  shows "ys \<in> set (combinations xs (length ys))"
proof -
  have "sorted (filter (\<lambda>x. x \<in> set ys) xs)" "distinct (filter (\<lambda>x. x \<in> set ys) xs)"
    using assms by (simp_all add: sorted_wrt_filter)
  moreover have "set (filter (\<lambda>x. x \<in> set ys) xs) = set ys"
    using assms by auto
  ultimately have "filter (\<lambda>x. x \<in> set ys) xs = ys"
    using assms by (intro sorted_distinct_set_unique) simp_all
  with filter_in_combinations [of "\<lambda>x. x \<in> set ys" xs] show ?thesis by simp
qed

lemma sorted_A: "sorted (A num_alts)"
  by (simp add: A_def)

lemma pav_committee_in_committees:
  assumes "k \<le> num_alts"
  shows "pav_committee num_alts k \<in> set (committees num_alts k)"
proof -
  have "pav_committee num_alts k \<in> set (combinations (A num_alts) (length (pav_committee num_alts k)))"
    unfolding pav_committee_def
    by (rule sorted_sublist_in_combinations)
       (auto simp: sorted_A distinct_A sorted_wrt_take dest: in_set_takeD)
  moreover have "length (pav_committee num_alts k) = k"
    using assms by (simp add: pav_committee_def A_def)
  ultimately show ?thesis by (simp add: committees_def)
qed

lemma set_pav_committee: "set (pav_committee num_alts k) \<subseteq> set (A num_alts)"
  by (auto simp: pav_committee_def dest: in_set_takeD)

lemma set_swapped: "set (swapped committee x y) = (set committee - {x}) \<union> {y}"
  unfolding swapped_def by (rule set_sorted_list_of_set) simp

lemma sorted_swapped: "sorted (swapped committee x y)"
  unfolding swapped_def by (rule sorted_sorted_list_of_set)

lemma distinct_swapped: "distinct (swapped committee x y)"
  unfolding swapped_def by (rule distinct_sorted_list_of_set)

lemma coeff_of_terms:
  assumes "inj_on vf (set bs)" "b0 \<in> set bs" "set bs' \<subseteq> set bs" "distinct bs'"
  shows "(\<Sum>(a, u) \<leftarrow> map (\<lambda>b. (c b, vf b)) bs'. if u = vf b0 then a else 0)
         = (if b0 \<in> set bs' then c b0 else (0::rat))"
proof -
  have "(\<Sum>(a, u) \<leftarrow> map (\<lambda>b. (c b, vf b)) bs'. if u = vf b0 then a else 0)
        = (\<Sum>b \<leftarrow> bs'. if vf b = vf b0 then c b else 0)"
    by (simp add: comp_def)
  also have "\<dots> = (\<Sum>b \<in> set bs'. if vf b = vf b0 then c b else 0)"
    using assms(4) by (rule sum_list_distinct_conv_sum_set)
  also have "\<dots> = (\<Sum>b \<in> set bs'. if b = b0 then c b else 0)"
  proof (rule sum.cong)
    fix b assume "b \<in> set bs'"
    with assms have "vf b = vf b0 \<longleftrightarrow> b = b0"
      by (auto dest: inj_onD)
    then show "(if vf b = vf b0 then c b else 0) = (if b = b0 then c b else 0)"
      by simp
  qed simp
  also have "\<dots> = (if b0 \<in> set bs' then c b0 else 0)"
    by (simp add: sum.delta')
  finally show ?thesis .
qed

lemma inj_on_index_function:
  assumes "\<forall>i < length bs. vf (bs ! i) = i"
  shows "inj_on vf (set bs)"
proof (rule inj_onI)
  fix b b' assume "b \<in> set bs" "b' \<in> set bs" and eq: "vf b = vf b'"
  then obtain i j where "i < length bs" "b = bs ! i" "j < length bs" "b' = bs ! j"
    by (auto simp: in_set_conv_nth)
  with assms eq show "b = b'" by simp
qed



lemma ballot_lhs_linear:
  assumes "\<forall>p \<in> set (swaps num_alts k). beta p = Some (bf p)"
  shows "ballot_lhs num_alts k T alpha beta gamma ballot =
           Inr (alpha
                + (\<Sum>(x, y) \<leftarrow> swaps num_alts k.
                     bf (x, y) * (harmonic_number (utility ballot (swapped (pav_committee num_alts k) x y))
                                  - harmonic_number (utility ballot (pav_committee num_alts k))))
                + gamma * - (if utility ballot T > utility ballot (pav_committee num_alts k)
                             then 1 else 0))"
  using add_swap_terms_total [OF assms] by (simp add: ballot_lhs_def)

lemma sum_list_unit:
  fixes f :: "'a \<Rightarrow> rat"
  assumes "distinct xs" "a \<in> set xs"
  shows "(\<Sum>x \<leftarrow> xs. (if x = a then 1 else 0) * f x) = f a"
proof -
  have "(\<Sum>x \<leftarrow> xs. (if x = a then 1 else 0) * f x) = (\<Sum>x \<in> set xs. (if x = a then 1 else 0) * f x)"
    using assms(1) by (rule sum_list_distinct_conv_sum_set)
  also have "\<dots> = (\<Sum>x \<in> set xs. if x = a then f x else 0)"
    by (rule sum.cong) simp_all
  also have "\<dots> = f a"
    using assms(2) by (simp add: sum.delta')
  finally show ?thesis .
qed

lemma ballot_lhs_unit_swap:
  assumes "(x, y) \<in> set (swaps num_alts k)"
  shows "ballot_lhs num_alts k T 0 (\<lambda>p. Some (if p = (x, y) then 1 else 0)) 0 ballot =
           Inr (harmonic_number (utility ballot (swapped (pav_committee num_alts k) x y))
                - harmonic_number (utility ballot (pav_committee num_alts k)))"
proof -
  let ?d = "\<lambda>p. harmonic_number (utility ballot (swapped (pav_committee num_alts k) (fst p) (snd p)))
                - harmonic_number (utility ballot (pav_committee num_alts k))"
  have "ballot_lhs num_alts k T 0 (\<lambda>p. Some (if p = (x, y) then 1 else 0)) 0 ballot =
          Inr (\<Sum>p \<leftarrow> swaps num_alts k. (if p = (x, y) then 1 else 0) * ?d p)"
    using ballot_lhs_linear [where bf = "\<lambda>p. if p = (x, y) then 1 else 0" and beta = "\<lambda>p. Some (if p = (x, y) then 1 else 0)"
        and num_alts = num_alts and k = k and T = T and alpha = 0 and gamma = 0 and ballot = ballot]
    by (simp add: case_prod_unfold prod_eq_iff)
  also have "(\<Sum>p \<leftarrow> swaps num_alts k. (if p = (x, y) then 1 else 0) * ?d p) = ?d (x, y)"
    using distinct_swaps assms by (rule sum_list_unit)
  finally show ?thesis by simp
qed

lemma ballot_lhs_unit_gamma:
  "ballot_lhs num_alts k T 0 (\<lambda>p. Some 0) 1 ballot =
     Inr (- (if utility ballot T > utility ballot (pav_committee num_alts k) then 1 else 0))"
  using ballot_lhs_linear [where bf = "\<lambda>p. 0" and beta = "\<lambda>p. Some 0"
      and num_alts = num_alts and k = k and T = T and alpha = 0 and gamma = 1 and ballot = ballot]
  by (simp add: case_prod_unfold)

lemma sum_list_by_index:
  fixes f :: "'a \<Rightarrow> rat"
  shows "(\<Sum>j \<leftarrow> [0..<length xs]. f (xs ! j)) = (\<Sum>x \<leftarrow> xs. f x)"
proof -
  have "map (\<lambda>j. f (xs ! j)) [0..<length xs] = map f (map (\<lambda>j. xs ! j) [0..<length xs])"
    by simp
  also have "\<dots> = map f xs"
    by (simp only: map_nth)
  finally show ?thesis by simp
qed

lemma utility_empty: "utility [] committee = 0"
  by (simp add: utility_def)

lemma empty_in_subseqs: "[] \<in> set (subseqs xs)"
  by (induction xs) (auto simp: Let_def)

lemma empty_in_ballots: "[] \<in> set (ballots num_alts)"
  by (simp add: set_ballots empty_in_subseqs)

lemma add_swap_terms_empty_ballot:
  assumes "\<forall>p \<in> set sw. \<exists>b. beta p = Some b"
  shows "add_swap_terms committee beta [] sw lhs = Inr lhs"
  using assms
proof (induction sw arbitrary: lhs)
  case Nil
  then show ?case by simp
next
  case (Cons p rest)
  obtain x y where p: "p = (x, y)" by (cases p)
  from Cons.prems p obtain b where "beta (x, y) = Some b" by auto
  moreover from Cons.prems have "\<forall>p \<in> set rest. \<exists>b. beta p = Some b" by simp
  ultimately show ?case
    using Cons.IH p by (simp add: lookup_def utility_empty)
qed

lemma utility_swapped_any_order:
  assumes "set xs = (set committee - {x}) \<union> {y}"
  shows "utility ballot xs = utility ballot (swapped committee x y)"
proof -
  have "set (swapped committee x y) = (set committee - {x}) \<union> {y}"
    unfolding swapped_def by (rule set_sorted_list_of_set) simp
  with assms show ?thesis by (simp add: utility_def)
qed

lemma harmonic_number_imported_eq: "harmonic_number_imported r = harmonic_number r"
proof -
  have "(\<Sum>i \<leftarrow> [1..r]. 1 / rat_of_int i) = (\<Sum>i \<in> set [1..r]. 1 / rat_of_int i)"
    by (rule sum_list_distinct_conv_sum_set) simp
  then show ?thesis
    by (simp add: harmonic_number_imported_def harmonic_number_def)
qed

lemma float_of_rat_minus: "float_of_rat (- q) = - float_of_rat q"
  by (simp add: float_of_rat_def Let_def split: prod.splits)

lemma enumerates_sorted_list_of_set: "enumerates sorted_list_of_set"
  by (simp add: enumerates_def)

lemma combinations_length:
  "ys \<in> set (combinations xs r) \<Longrightarrow> length ys = r"
proof (induction xs r arbitrary: ys rule: combinations.induct)
  case (1 xs)
  then show ?case by simp
next
  case (2 r)
  then show ?case by simp
next
  case (3 x xs r)
  then show ?case by auto
qed

lemma combinations_subset:
  "ys \<in> set (combinations xs r) \<Longrightarrow> set ys \<subseteq> set xs"
proof (induction xs r arbitrary: ys rule: combinations.induct)
  case (1 xs)
  then show ?case by simp
next
  case (2 r)
  then show ?case by simp
next
  case (3 x xs r)
  from "3.prems" consider zs where "ys = x # zs" "zs \<in> set (combinations xs r)"
    | "ys \<in> set (combinations xs (Suc r))"
    by auto
  then show ?case
  proof cases
    case 1
    with "3.IH"(1) [of zs] show ?thesis by auto
  next
    case 2
    with "3.IH"(2) [of ys] show ?thesis by auto
  qed
qed

lemma combinations_sorted:
  "sorted xs \<Longrightarrow> ys \<in> set (combinations xs r) \<Longrightarrow> sorted ys"
proof (induction xs r arbitrary: ys rule: combinations.induct)
  case (1 xs)
  then show ?case by simp
next
  case (2 r)
  then show ?case by simp
next
  case (3 x xs r)
  from "3.prems" have sx: "sorted xs" and le: "\<forall>z \<in> set xs. x \<le> z" by simp_all
  from "3.prems" consider zs where "ys = x # zs" "zs \<in> set (combinations xs r)"
    | "ys \<in> set (combinations xs (Suc r))"
    by auto
  then show ?case
  proof cases
    case 1
    with "3.IH"(1) [OF sx] have "sorted zs" by simp
    moreover from 1 combinations_subset have "set zs \<subseteq> set xs" by blast
    ultimately show ?thesis using 1 le by auto
  next
    case 2
    with "3.IH"(2) [OF sx] show ?thesis by simp
  qed
qed

lemma combinations_distinct:
  "distinct xs \<Longrightarrow> ys \<in> set (combinations xs r) \<Longrightarrow> distinct ys"
proof (induction xs r arbitrary: ys rule: combinations.induct)
  case (1 xs)
  then show ?case by simp
next
  case (2 r)
  then show ?case by simp
next
  case (3 x xs r)
  from "3.prems" have dx: "distinct xs" and nx: "x \<notin> set xs" by simp_all
  from "3.prems" consider zs where "ys = x # zs" "zs \<in> set (combinations xs r)"
    | "ys \<in> set (combinations xs (Suc r))"
    by auto
  then show ?case
  proof cases
    case 1
    with "3.IH"(1) [OF dx] have "distinct zs" by simp
    moreover from 1 combinations_subset have "set zs \<subseteq> set xs" by blast
    ultimately show ?thesis using 1 nx by auto
  next
    case 2
    with "3.IH"(2) [OF dx] show ?thesis by simp
  qed
qed

lemma in_committees_iff:
  "w \<in> set (committees num_alts k) \<longleftrightarrow>
     sorted w \<and> distinct w \<and> set w \<subseteq> set (A num_alts) \<and> length w = k"
proof
  assume "w \<in> set (committees num_alts k)"
  then have w: "w \<in> set (combinations (A num_alts) k)" by (simp add: committees_def)
  show "sorted w \<and> distinct w \<and> set w \<subseteq> set (A num_alts) \<and> length w = k"
    using combinations_sorted [OF sorted_A w] combinations_distinct [OF distinct_A w]
      combinations_subset [OF w] combinations_length [OF w]
    by simp
next
  assume a: "sorted w \<and> distinct w \<and> set w \<subseteq> set (A num_alts) \<and> length w = k"
  then have "w \<in> set (combinations (A num_alts) (length w))"
    by (intro sorted_sublist_in_combinations sorted_A distinct_A) simp_all
  with a show "w \<in> set (committees num_alts k)" by (simp add: committees_def)
qed

lemma pav_committee_in_committees_iff:
  "pav_committee num_alts k \<in> set (committees num_alts k) \<longleftrightarrow> k \<le> num_alts"
proof
  assume "pav_committee num_alts k \<in> set (committees num_alts k)"
  then have "length (pav_committee num_alts k) = k" by (simp add: in_committees_iff)
  then show "k \<le> num_alts" by (simp add: pav_committee_def A_def)
qed (rule pav_committee_in_committees)

lemma quicksum_var_times:
  assumes "\<forall>b \<in> set bs. freq b = Some (vf b)"
  shows "quicksum (\<lambda>ballot. map_sum id (\<lambda>v. var_times v (c ballot)) (lookup freq ballot))
           bs (const_expr 0)
         = Inr (LinExpr (map (\<lambda>b. (float_of_rat (c b), vf b)) bs) 0)"
proof -
  have "\<forall>b \<in> set bs. map_sum id (\<lambda>v. var_times v (c b)) (lookup freq b)
                        = Inr (LinExpr [(float_of_rat (c b), vf b)] 0)"
    using assms by (simp add: lookup_def var_times_def)
  from quicksum_total [where g = "\<lambda>b. LinExpr [(float_of_rat (c b), vf b)] 0", OF this]
  show ?thesis
    by (simp add: const_expr_def concat_map_singleton)
qed

lemma quicksum_plain_vars:
  assumes "\<forall>b \<in> set bs. freq b = Some (vf b)"
  shows "quicksum (\<lambda>ballot. map_sum id var_expr (lookup freq ballot)) bs (const_expr 0)
         = Inr (LinExpr (map (\<lambda>b. (1, vf b)) bs) 0)"
proof -
  have "\<forall>b \<in> set bs. map_sum id var_expr (lookup freq b) = Inr (LinExpr [(1, vf b)] 0)"
    using assms by (simp add: lookup_def var_expr_def)
  from quicksum_total [where g = "\<lambda>b. LinExpr [(1, vf b)] 0", OF this]
  show ?thesis
    by (simp add: const_expr_def concat_map_singleton)
qed

lemma add_swap_constrs_cases:
  assumes "\<forall>p \<in> set sw. W_xy p = Some (w p)"
    and "\<forall>c. score c = (if c \<in> C then Some (sc c) else None)"
  shows "add_swap_constrs m score W_xy opt_score sw =
           (if \<forall>p \<in> set sw. w p \<in> C
            then Inr (m\<lparr>Constrs := Constrs m @
                  map (\<lambda>(x, y). \<lparr>ConstrName = beta_key x y,
                                 row = terms (sc (w (x, y))) @ terms (neg_expr opt_score),
                                 Sense = LessEqual,
                                 RHS = const opt_score - const (sc (w (x, y)))\<rparr>) sw\<rparr>)
            else Inl KeyError)"
  using assms(1)
proof (induction sw arbitrary: m)
  case Nil
  then show ?case by simp
next
  case (Cons p rest)
  obtain x y where p: "p = (x, y)" by (cases p)
  from Cons.prems p have here: "W_xy (x, y) = Some (w (x, y))"
    by simp
  from Cons.prems have rest: "\<forall>p \<in> set rest. W_xy p = Some (w p)"
    by simp
  show ?case
  proof (cases "w (x, y) \<in> C")
    case True
    then show ?thesis
      using Cons.IH [OF rest] here p assms(2) by (simp add: lookup_def)
  next
    case False
    then show ?thesis
      using here p assms(2) by (auto simp: lookup_def)
  qed
qed

lemma make_model_cases:
  assumes it: "enumerates iter_tuples"
  shows "\<exists>freq vf.
           (\<forall>i < length (ballots num_alts).
                 freq (ballots num_alts ! i) = Some i \<and> vf (ballots num_alts ! i) = i)
           \<and> make_model iter_ints iter_tuples num_alts k T integral =
             (if \<not> k \<le> num_alts then Inl KeyError
              else if \<not> (\<forall>(x, y) \<in> set (builder_swaps iter_ints num_alts k).
                        iter_ints ((set (pav_committee num_alts k) - {x}) \<union> {y})
                          \<in> set (committees num_alts k))
              then Inl KeyError
              else if k = 0 then Inl ZeroDivisionError
              else Inr (\<lparr>OutputFlag = 0, NumVars = length (ballots num_alts),
                   Constrs = lp_rows iter_ints iter_tuples num_alts k T vf\<rparr>, freq))"
proof -
  let ?bs = "ballots num_alts"
  let ?W = "pav_committee num_alts k"
  let ?sw = "builder_swaps iter_ints num_alts k"
  let ?m0 = "new_Model\<lparr>OutputFlag := 0\<rparr>"
  let ?P = "\<lambda>ballot. utility ballot T > utility ballot ?W"
  obtain m1 freq where av: "add_vars ?m0 ?bs Map.empty = (m1, freq)"
    by (cases "add_vars ?m0 ?bs Map.empty")
  from add_vars_result [OF distinct_ballots av]
  have m1: "m1 = \<lparr>OutputFlag = 0, NumVars = length ?bs, Constrs = []\<rparr>"
    and idx: "\<forall>i < length ?bs. freq (?bs ! i) = Some i"
    by (simp_all add: new_Model_def)
  define vf where "vf = (\<lambda>b. the (freq b))"
  have vf_idx: "\<forall>i < length ?bs. vf (?bs ! i) = i"
    using idx by (simp add: vf_def)
  have vf: "\<forall>b \<in> set ?bs. freq b = Some (vf b)"
    using idx by (auto simp: vf_def in_set_conv_nth)
  have "finite (set (filter ?P ?bs))" by simp
  with it have pset: "set (iter_tuples (set (filter ?P ?bs))) = set (filter ?P ?bs)"
    unfolding enumerates_def by blast
  have vf_sub: "\<forall>b \<in> set (iter_tuples (set (filter ?P ?bs))). freq b = Some (vf b)"
    unfolding pset using vf by simp
  \<comment> \<open>the normalization constraint\<close>
  have norm: "quicksum (\<lambda>ballot. map_sum id var_expr (lookup freq ballot)) ?bs (const_expr 0)
              = Inr (LinExpr (map (\<lambda>b. (1, vf b)) ?bs) 0)"
    using vf by (rule quicksum_plain_vars)
  \<comment> \<open>the scores\<close>
  define sc where "sc = (\<lambda>c. LinExpr (map (\<lambda>b. (float_of_rat (harmonic_number_imported (utility b c)), vf b)) ?bs) 0)"
  have "\<forall>c \<in> set (committees num_alts k).
          quicksum (\<lambda>ballot. map_sum id
                      (\<lambda>v. var_times v (harmonic_number_imported (utility ballot c)))
                      (lookup freq ballot)) ?bs (const_expr 0) = Inr (sc c)"
    using quicksum_var_times [OF vf] by (simp add: sc_def)
  from dict_comprehension_total [OF this, of Map.empty]
  have score: "dict_comprehension
             (\<lambda>committee.
                quicksum
                  (\<lambda>ballot. map_sum id
                     (\<lambda>v. var_times v (harmonic_number_imported (utility ballot committee)))
                     (lookup freq ballot))
                  ?bs (const_expr 0))
             (committees num_alts k) Map.empty
           = Inr (\<lambda>c. if c \<in> set (committees num_alts k) then Some (sc c) else None)"
    (is "_ = Inr ?score") .
  have opt: "lookup ?score ?W = (if k \<le> num_alts then Inr (sc ?W) else Inl KeyError)"
    by (simp add: lookup_def pav_committee_in_committees_iff)
  \<comment> \<open>the swaps\<close>
  define w where "w = (\<lambda>p. case p of (x, y) \<Rightarrow> iter_ints ((set ?W - {x}) \<union> {y}))"
  have "\<forall>p \<in> set ?sw.
          (\<lambda>(x, y). Inr (iter_ints ((set ?W - {x}) \<union> {y}))) p
            = (Inr (w p) :: error + nat list)"
    by (auto simp: w_def)
  from dict_comprehension_total [OF this, of Map.empty]
  have wxy: "dict_comprehension
             (\<lambda>(x, y). Inr (iter_ints ((set ?W - {x}) \<union> {y})))
             ?sw Map.empty
           = (Inr (\<lambda>p. if p \<in> set ?sw then Some (w p) else None)
               :: error + (nat \<times> nat \<rightharpoonup> nat list))"
    (is "_ = Inr ?W_xy") .
  have a1: "\<forall>p \<in> set ?sw. ?W_xy p = Some (w p)" by simp
  have a2: "\<forall>c. ?score c = (if c \<in> set (committees num_alts k) then Some (sc c) else None)"
    by simp
  have rows: "map (\<lambda>(x, y). \<lparr>ConstrName = beta_key x y,
                                 row = terms (sc (w (x, y))) @ terms (neg_expr (sc ?W)),
                                 Sense = LessEqual,
                                 RHS = const (sc ?W) - const (sc (w (x, y)))\<rparr>) ?sw
              = map (swap_row iter_ints num_alts k vf) ?sw"
    by (simp add: sc_def w_def swap_row_def neg_expr_def case_prod_unfold comp_def)
  have good: "(\<forall>p \<in> set ?sw. w p \<in> set (committees num_alts k))
              \<longleftrightarrow> (\<forall>(x, y) \<in> set ?sw. iter_ints ((set ?W - {x}) \<union> {y}) \<in> set (committees num_alts k))"
    by (auto simp: w_def)
  have sw: "add_swap_constrs m ?score ?W_xy (sc ?W) ?sw =
           (if \<forall>(x, y) \<in> set ?sw. iter_ints ((set ?W - {x}) \<union> {y}) \<in> set (committees num_alts k)
            then Inr (m\<lparr>Constrs := Constrs m @ map (swap_row iter_ints num_alts k vf) ?sw\<rparr>)
            else Inl KeyError)" for m
    unfolding add_swap_constrs_cases [OF a1 a2] rows good ..
  \<comment> \<open>the deviation constraint\<close>
  have pref: "quicksum (\<lambda>ballot. map_sum id var_expr (lookup freq ballot))
                (iter_tuples (set (filter ?P ?bs))) (const_expr 0)
              = Inr (LinExpr (map (\<lambda>b. (1, vf b)) (iter_tuples (set (filter ?P ?bs)))) 0)"
    using vf_sub by (rule quicksum_plain_vars)
  let ?good = "\<forall>(x, y) \<in> set ?sw.
                 iter_ints ((set ?W - {x}) \<union> {y}) \<in> set (committees num_alts k)"
  let ?model = "\<lparr>OutputFlag = 0, NumVars = length ?bs,
                  Constrs = lp_rows iter_ints iter_tuples num_alts k T vf\<rparr>"
  have "make_model iter_ints iter_tuples num_alts k T integral =
             (if \<not> k \<le> num_alts then Inl KeyError
              else if \<not> ?good then Inl KeyError
              else if k = 0 then Inl ZeroDivisionError
              else Inr (?model, freq))"
  proof (cases "k \<le> num_alts")
    case False
    then have opt': "lookup ?score ?W = Inl KeyError" by (simp add: opt)
    show ?thesis
      unfolding make_model_def Let_def av prod.case norm sum.case score opt'
      using False by simp
  next
    case le: True
    then have opt': "lookup ?score ?W = Inr (sc ?W)" by (simp add: opt)
    show ?thesis
    proof (cases ?good)
      case False
      then have sw': "add_swap_constrs m ?score ?W_xy (sc ?W) ?sw = Inl KeyError" for m
        unfolding sw by (rule if_not_P)
      show ?thesis
        unfolding make_model_def Let_def av prod.case norm sum.case score opt' wxy sw'
        using False le by simp
    next
      case good: True
      then have sw': "add_swap_constrs m ?score ?W_xy (sc ?W) ?sw =
           Inr (m\<lparr>Constrs := Constrs m @ map (swap_row iter_ints num_alts k vf) ?sw\<rparr>)" for m
        unfolding sw by (rule if_P)
      show ?thesis
      proof (cases "k = 0")
        case True
        then have frac': "truediv (- int (length T)) (int k) = Inl ZeroDivisionError"
          by (simp add: truediv_def)
        show ?thesis
          unfolding make_model_def Let_def av prod.case norm sum.case score opt' wxy sw' pref frac'
          using good le True by simp
      next
        case False
        then have frac': "truediv (- int (length T)) (int k) =
                 Inr (float_of_rat (of_int (- int (length T)) / of_int (int k)))"
          by (simp add: truediv_def)
        have "make_model iter_ints iter_tuples num_alts k T integral = Inr (?model, freq)"
          unfolding make_model_def Let_def av prod.case norm sum.case score opt' wxy sw' pref frac'
          by (simp add: m1 lp_rows_def const_expr_def neg_expr_def comp_def)
        then show ?thesis
          using good le False by simp
      qed
    qed
  qed
  with idx vf_idx show ?thesis by blast
qed

lemma enumeratesD:
  assumes "enumerates iter" "finite S"
  shows "set (iter S) = S" "distinct (iter S)"
  using assms unfolding enumerates_def by blast+

lemma filter_eq_single:
  "distinct xs \<Longrightarrow> filter (\<lambda>x. x = a) xs = (if a \<in> set xs then [a] else [])"
  by (induction xs) auto

lemma terms_of_terms:
  assumes "inj_on vf (set bs)" "b0 \<in> set bs" "set bs' \<subseteq> set bs" "distinct bs'"
  shows "map fst (filter (\<lambda>(a, u). u = vf b0) (map (\<lambda>b. (c b, vf b)) bs'))
         = (if b0 \<in> set bs' then [c b0] else [])"
proof -
  have "filter (\<lambda>b. vf b = vf b0) bs' = filter (\<lambda>b. b = b0) bs'"
  proof (rule filter_cong [OF refl])
    fix b assume "b \<in> set bs'"
    with assms show "(vf b = vf b0) = (b = b0)" by (auto dest: inj_onD)
  qed
  then have "map fst (filter (\<lambda>(a, u). u = vf b0) (map (\<lambda>b. (c b, vf b)) bs'))
             = map c (filter (\<lambda>b. b = b0) bs')"
    by (simp add: filter_map comp_def)
  also have "\<dots> = (if b0 \<in> set bs' then [c b0] else [])"
    by (simp add: filter_eq_single [OF assms(4)])
  finally show ?thesis .
qed

lemma set_builder_swaps:
  assumes "enumerates iter_ints"
  shows "set (builder_swaps iter_ints num_alts k)
         = swap_pairs (pav_committee num_alts k) (A num_alts)"
proof -
  have "finite (set (A num_alts) - set (pav_committee num_alts k))" by simp
  with assms have "set (iter_ints (set (A num_alts) - set (pav_committee num_alts k)))
                   = set (A num_alts) - set (pav_committee num_alts k)"
    unfolding enumerates_def by blast
  then show ?thesis
    by (auto simp: builder_swaps_def swap_pairs_def)
qed



lemma swapped_set_card:
  assumes "k \<le> num_alts" and "(x, y) \<in> swap_pairs (pav_committee num_alts k) (A num_alts)"
  shows "card ((set (pav_committee num_alts k) - {x}) \<union> {y}) = k"
    and "(set (pav_committee num_alts k) - {x}) \<union> {y} \<subseteq> set (A num_alts)"
proof -
  let ?W = "pav_committee num_alts k"
  let ?S = "(set ?W - {x}) \<union> {y}"
  from assms(2) have x: "x \<in> set ?W" and y: "y \<in> set (A num_alts)" "y \<notin> set ?W"
    by (auto simp: swap_pairs_def)
  have "card ?S = Suc (card (set ?W - {x}))"
    using y by simp
  also have "\<dots> = card (set ?W)"
    by (rule card_Suc_Diff1) (use x in simp_all)
  also have "\<dots> = k"
    using assms(1) by (simp add: distinct_card distinct_pav_committee pav_committee_def A_def)
  finally show "card ?S = k" .
  show "?S \<subseteq> set (A num_alts)"
    using set_pav_committee [of num_alts k] y by auto
qed

lemma swapped_tuple_in_committees_iff:
  assumes "enumerates iter_ints" and "k \<le> num_alts"
    and "(x, y) \<in> swap_pairs (pav_committee num_alts k) (A num_alts)"
  shows "iter_ints ((set (pav_committee num_alts k) - {x}) \<union> {y}) \<in> set (committees num_alts k)
         \<longleftrightarrow> sorted (iter_ints ((set (pav_committee num_alts k) - {x}) \<union> {y}))"
    and "sorted (iter_ints ((set (pav_committee num_alts k) - {x}) \<union> {y}))
         \<longleftrightarrow> iter_ints ((set (pav_committee num_alts k) - {x}) \<union> {y})
               = swapped (pav_committee num_alts k) x y"
    and "set (iter_ints ((set (pav_committee num_alts k) - {x}) \<union> {y}))
         = (set (pav_committee num_alts k) - {x}) \<union> {y}"
proof -
  let ?S = "(set (pav_committee num_alts k) - {x}) \<union> {y}"
  let ?w = "iter_ints ?S"
  have fin: "finite ?S" by simp
  have s: "set ?w = ?S" and d: "distinct ?w"
    by (rule enumeratesD [OF assms(1) fin])+
  show "set ?w = ?S" by (rule s)
  have "length ?w = card (set ?w)"
    by (rule distinct_card [OF d, symmetric])
  also have "\<dots> = card ?S" by (simp only: s)
  also have "\<dots> = k" by (rule swapped_set_card(1) [OF assms(2,3)])
  finally have len: "length ?w = k" .
  have sub: "set ?w \<subseteq> set (A num_alts)"
    unfolding s by (rule swapped_set_card(2) [OF assms(2,3)])
  show "?w \<in> set (committees num_alts k) \<longleftrightarrow> sorted ?w"
    unfolding in_committees_iff using d len sub by blast
  show "sorted ?w \<longleftrightarrow> ?w = swapped (pav_committee num_alts k) x y"
  proof
    assume sw: "sorted ?w"
    have "set ?w = set (swapped (pav_committee num_alts k) x y)"
      by (simp only: s set_swapped)
    with sw d show "?w = swapped (pav_committee num_alts k) x y"
      by (intro sorted_distinct_set_unique sorted_swapped distinct_swapped)
  next
    assume "?w = swapped (pav_committee num_alts k) x y"
    then show "sorted ?w" by (simp only: sorted_swapped)
  qed
qed

lemma coeff_as_sum_of_terms: "coeff c v = sum_list (terms_of c v)"
proof -
  have "(\<Sum>(a, u) \<leftarrow> r. if u = v then a else 0) = sum_list (map fst (filter (\<lambda>(a, u). u = v) r))"
    for r :: "(rat \<times> var) list"
    by (induction r) auto
  then show ?thesis by (simp add: coeff_def terms_of_def)
qed


lemma terms_of_swap_row:
  assumes "inj_on vf (set (ballots num_alts))" "b0 \<in> set (ballots num_alts)"
  shows "terms_of (swap_row iter_ints num_alts k vf (x, y)) (vf b0)
         = [float_of_rat (harmonic_number_imported
              (utility b0 (iter_ints ((set (pav_committee num_alts k) - {x}) \<union> {y})))),
            - float_of_rat (harmonic_number_imported (utility b0 (pav_committee num_alts k)))]"
  using terms_of_terms [OF assms subset_refl distinct_ballots,
          of "\<lambda>b. float_of_rat (harmonic_number_imported
                 (utility b (iter_ints ((set (pav_committee num_alts k) - {x}) \<union> {y}))))"]
        terms_of_terms [OF assms subset_refl distinct_ballots,
          of "\<lambda>b. - float_of_rat (harmonic_number_imported (utility b (pav_committee num_alts k)))"]
        assms(2)
  by (simp add: swap_row_def terms_of_def)

lemma neg_quotient:
  "(of_int (- int n) / of_int (int k) :: rat) = - (of_int (int n) / of_int (int k))"
  by simp

lemma float_of_rat_neg_quotient:
  "float_of_rat (of_int (- int n) / of_int (int k))
   = - float_of_rat (of_int (int n) / of_int (int k))"
  unfolding neg_quotient by (rule float_of_rat_minus)

lemma gamma_row_unfold:
  "last (lp_rows iter_ints iter_tuples num_alts k T vf) =
     \<lparr>ConstrName = ''gamma'',
      row = map (\<lambda>b. (- 1, vf b))
              (iter_tuples
                 (set (filter (\<lambda>ballot. utility ballot T > utility ballot (pav_committee num_alts k))
                         (ballots num_alts)))),
      Sense = LessEqual,
      RHS = - float_of_rat (of_int (int (length T)) / of_int (int k))\<rparr>"
  unfolding lp_rows_def float_of_rat_neg_quotient by simp

lemma preferring_enumerated:
  assumes "enumerates iter_tuples"
  shows "set (iter_tuples (set (filter P (ballots num_alts)))) = set (filter P (ballots num_alts))"
    and "distinct (iter_tuples (set (filter P (ballots num_alts))))"
proof -
  have "finite (set (filter P (ballots num_alts)))" by simp
  with assms show "set (iter_tuples (set (filter P (ballots num_alts)))) = set (filter P (ballots num_alts))"
    and "distinct (iter_tuples (set (filter P (ballots num_alts))))"
    unfolding enumerates_def by blast+
qed

lemma terms_of_gamma_row:
  assumes "enumerates iter_tuples"
    and "inj_on vf (set (ballots num_alts))" "b0 \<in> set (ballots num_alts)"
  shows "terms_of (last (lp_rows iter_ints iter_tuples num_alts k T vf)) (vf b0)
         = (if utility b0 T > utility b0 (pav_committee num_alts k) then [- 1] else [])"
proof -
  let ?P = "\<lambda>ballot. utility ballot T > utility ballot (pav_committee num_alts k)"
  let ?it = "iter_tuples (set (filter ?P (ballots num_alts)))"
  note e = preferring_enumerated [OF assms(1), of ?P num_alts]
  have "set ?it \<subseteq> set (ballots num_alts)" "distinct ?it"
    using e by simp_all
  from terms_of_terms [OF assms(2,3) this, of "\<lambda>b. - 1"] assms(3) e(1)
  show ?thesis
    unfolding gamma_row_unfold by (simp add: terms_of_def)
qed


lemma satisfies_swap_row:
  "satisfies p (swap_row iter_ints num_alts k vf (x, y)) \<longleftrightarrow>
     (\<Sum>b \<leftarrow> ballots num_alts.
        float_of_rat (harmonic_number_imported
          (utility b (iter_ints ((set (pav_committee num_alts k) - {x}) \<union> {y})))) * p (vf b))
     \<le> (\<Sum>b \<leftarrow> ballots num_alts.
          float_of_rat (harmonic_number_imported (utility b (pav_committee num_alts k))) * p (vf b))"
proof -
  have "(\<Sum>b \<leftarrow> bs. - (f b * p (vf b))) = - (\<Sum>b \<leftarrow> bs. f b * p (vf b))"
    for bs :: "nat list list" and f :: "nat list \<Rightarrow> rat"
    by (induction bs) simp_all
  then show ?thesis
    by (simp add: satisfies_def swap_row_def comp_def)
qed


lemma lp_rows_shape:
  "lp_rows iter_ints iter_tuples num_alts k T vf =
     hd (lp_rows iter_ints iter_tuples num_alts k T vf)
     # map (swap_row iter_ints num_alts k vf) (builder_swaps iter_ints num_alts k)
       @ [last (lp_rows iter_ints iter_tuples num_alts k T vf)]"
  by (simp add: lp_rows_def)


lemma lp_rows_gamma:
  "ConstrName (last (lp_rows iter_ints iter_tuples num_alts k T vf)) = ''gamma''"
  "Sense (last (lp_rows iter_ints iter_tuples num_alts k T vf)) = LessEqual"
  "RHS (last (lp_rows iter_ints iter_tuples num_alts k T vf))
     = - float_of_rat (of_int (int (length T)) / of_int (int k))"
  unfolding gamma_row_unfold by simp_all


lemma make_model_success_D:
  assumes "enumerates iter_tuples"
    and "make_model iter_ints iter_tuples num_alts k T integral = Inr (m, freq)"
  shows "0 < k" and "k \<le> num_alts"
    and "\<forall>(x, y) \<in> set (builder_swaps iter_ints num_alts k).
           iter_ints ((set (pav_committee num_alts k) - {x}) \<union> {y}) \<in> set (committees num_alts k)"
    and "\<exists>vf. (\<forall>i < length (ballots num_alts).
                  freq (ballots num_alts ! i) = Some i \<and> vf (ballots num_alts ! i) = i)
              \<and> m = \<lparr>OutputFlag = 0, NumVars = length (ballots num_alts),
                       Constrs = lp_rows iter_ints iter_tuples num_alts k T vf\<rparr>"
proof -
  let ?good = "\<forall>(x, y) \<in> set (builder_swaps iter_ints num_alts k).
           iter_ints ((set (pav_committee num_alts k) - {x}) \<union> {y}) \<in> set (committees num_alts k)"
  from make_model_cases [OF assms(1), of num_alts iter_ints k T integral]
  obtain freq' vf where
    idx: "\<forall>i < length (ballots num_alts).
            freq' (ballots num_alts ! i) = Some i \<and> vf (ballots num_alts ! i) = i"
    and mm: "make_model iter_ints iter_tuples num_alts k T integral =
             (if \<not> k \<le> num_alts then Inl KeyError
              else if \<not> ?good then Inl KeyError
              else if k = 0 then Inl ZeroDivisionError
              else Inr (\<lparr>OutputFlag = 0, NumVars = length (ballots num_alts),
                   Constrs = lp_rows iter_ints iter_tuples num_alts k T vf\<rparr>, freq'))"
    by blast
  from mm assms(2) have le: "k \<le> num_alts"
    by (cases "k \<le> num_alts") simp_all
  from mm assms(2) le have good: ?good
    by (cases ?good) simp_all
  from mm assms(2) le good have pos: "0 < k"
    by (cases "k = 0") simp_all
  from mm assms(2) le good pos
  have eq: "m = \<lparr>OutputFlag = 0, NumVars = length (ballots num_alts),
                   Constrs = lp_rows iter_ints iter_tuples num_alts k T vf\<rparr>" "freq = freq'"
    by simp_all
  show "0 < k" by (rule pos)
  show "k \<le> num_alts" by (rule le)
  show ?good by (rule good)
  from idx eq show "\<exists>vf. (\<forall>i < length (ballots num_alts).
                  freq (ballots num_alts ! i) = Some i \<and> vf (ballots num_alts ! i) = i)
              \<and> m = \<lparr>OutputFlag = 0, NumVars = length (ballots num_alts),
                       Constrs = lp_rows iter_ints iter_tuples num_alts k T vf\<rparr>"
    by blast
qed

lemma make_model_succeeds:
  assumes "enumerates iter_tuples" and "0 < k" and "k \<le> num_alts"
    and "\<forall>(x, y) \<in> set (builder_swaps iter_ints num_alts k).
           iter_ints ((set (pav_committee num_alts k) - {x}) \<union> {y}) \<in> set (committees num_alts k)"
  shows "\<exists>m freq. make_model iter_ints iter_tuples num_alts k T integral = Inr (m, freq)"
proof -
  from make_model_cases [OF assms(1), of num_alts iter_ints k T integral]
  obtain freq' vf where
    mm: "make_model iter_ints iter_tuples num_alts k T integral =
             (if \<not> k \<le> num_alts then Inl KeyError
              else if \<not> (\<forall>(x, y) \<in> set (builder_swaps iter_ints num_alts k).
           iter_ints ((set (pav_committee num_alts k) - {x}) \<union> {y}) \<in> set (committees num_alts k))
              then Inl KeyError
              else if k = 0 then Inl ZeroDivisionError
              else Inr (\<lparr>OutputFlag = 0, NumVars = length (ballots num_alts),
                   Constrs = lp_rows iter_ints iter_tuples num_alts k T vf\<rparr>, freq'))"
    by blast
  with assms(2-4) show ?thesis by simp
qed

lemma make_model_ascending_succeeds:
  assumes "enumerates iter_tuples" and "0 < k" and "k \<le> num_alts"
  shows "\<exists>m freq. make_model sorted_list_of_set iter_tuples num_alts k T integral = Inr (m, freq)"
proof (rule make_model_succeeds [OF assms])
  show "\<forall>(x, y) \<in> set (builder_swaps sorted_list_of_set num_alts k).
           sorted_list_of_set ((set (pav_committee num_alts k) - {x}) \<union> {y})
             \<in> set (committees num_alts k)"
  proof (clarify)
    fix x y assume "(x, y) \<in> set (builder_swaps sorted_list_of_set num_alts k)"
    then have p: "(x, y) \<in> swap_pairs (pav_committee num_alts k) (A num_alts)"
      by (simp only: set_builder_swaps [OF enumerates_sorted_list_of_set])
    show "sorted_list_of_set ((set (pav_committee num_alts k) - {x}) \<union> {y})
             \<in> set (committees num_alts k)"
      unfolding swapped_tuple_in_committees_iff(1) [OF enumerates_sorted_list_of_set assms(3) p]
      by (rule sorted_sorted_list_of_set)
  qed
qed





text \<open>
  C2 (as amended). For every ballot and every swap \<open>(x, y)\<close>, in a model that the builder
  returns the swap row holds for the ballot's variable the two terms
  \<open>float(H(utility(ballot, swapped committee)))\<close> and \<open>-float(H(utility(ballot, committee)))\<close>,
  where \<open>H\<close> is the verifier's own \<open>harmonic_number\<close> (the builder's imported one is equal
  to it, \<open>harmonic_number_imported_eq\<close>); the factor with which \<open>beta[x, y]\<close> enters the
  verifier's left-hand side (read off by running the verifier's loop body on the unit dual
  solution) is the exact \<open>H(utility(ballot, swapped committee)) - H(utility(ballot, committee))\<close>.
  The two agree up to the rounding of the two harmonic numbers to doubles, and exactly when
  both are doubles. The coefficient in the deviation row equals the factor of \<open>gamma\<close> in the
  verifier exactly: \<open>-1\<close> iff \<open>utility(ballot, T) > utility(ballot, committee)\<close>, else \<open>0\<close>.
  Every swap of the verifier has a row in the builder's model.
\<close>

theorem builder_verifier_coefficients_up_to_rounding:
  assumes "enumerates iter_ints" and "enumerates iter_tuples"
    and "make_model iter_ints iter_tuples num_alts k T integral = Inr (m, freq)"
  shows "\<exists>vf c_alpha cs c_gamma.
     Constrs m = c_alpha # cs @ [c_gamma]
     \<and> length cs = length (builder_swaps iter_ints num_alts k)
     \<and> set (builder_swaps iter_ints num_alts k) = set (swaps num_alts k)
     \<and> (\<forall>ballot \<in> set (ballots num_alts).
           freq ballot = Some (vf ballot)
           \<and> (\<forall>j < length cs. case builder_swaps iter_ints num_alts k ! j of (x, y) \<Rightarrow>
                 terms_of (cs ! j) (vf ballot) =
                   [float_of_rat (harmonic_number
                      (utility ballot (swapped (pav_committee num_alts k) x y))),
                    - float_of_rat (harmonic_number (utility ballot (pav_committee num_alts k)))]
                 \<and> ballot_lhs num_alts k T 0 (\<lambda>p. Some (if p = (x, y) then 1 else 0)) 0 ballot
                     = Inr (harmonic_number (utility ballot (swapped (pav_committee num_alts k) x y))
                            - harmonic_number (utility ballot (pav_committee num_alts k)))
                 \<and> (float_of_rat (harmonic_number
                        (utility ballot (swapped (pav_committee num_alts k) x y)))
                      = harmonic_number (utility ballot (swapped (pav_committee num_alts k) x y))
                    \<and> float_of_rat (harmonic_number (utility ballot (pav_committee num_alts k)))
                      = harmonic_number (utility ballot (pav_committee num_alts k))
                    \<longrightarrow> ballot_lhs num_alts k T 0 (\<lambda>p. Some (if p = (x, y) then 1 else 0)) 0 ballot
                          = Inr (coeff (cs ! j) (vf ballot))))
           \<and> terms_of c_gamma (vf ballot) =
               (if utility ballot T > utility ballot (pav_committee num_alts k) then [- 1] else [])
           \<and> coeff c_gamma (vf ballot) =
               - (if utility ballot T > utility ballot (pav_committee num_alts k) then 1 else 0)
           \<and> ballot_lhs num_alts k T 0 (\<lambda>p. Some 0) 1 ballot = Inr (coeff c_gamma (vf ballot)))"
proof -
  let ?bs = "ballots num_alts"
  let ?W = "pav_committee num_alts k"
  let ?sw = "builder_swaps iter_ints num_alts k"
  note d = make_model_success_D [OF assms(2,3)]
  from d(4) obtain vf where
    idx: "\<forall>i < length ?bs. freq (?bs ! i) = Some i \<and> vf (?bs ! i) = i"
    and m: "m = \<lparr>OutputFlag = 0, NumVars = length ?bs,
                  Constrs = lp_rows iter_ints iter_tuples num_alts k T vf\<rparr>"
    by blast
  let ?rows = "lp_rows iter_ints iter_tuples num_alts k T vf"
  let ?c_alpha = "hd ?rows"
  let ?cs = "map (swap_row iter_ints num_alts k vf) ?sw"
  let ?c_gamma = "last ?rows"
  have inj: "inj_on vf (set ?bs)"
    using idx by (intro inj_on_index_function) simp
  have vf: "\<forall>ballot \<in> set ?bs. freq ballot = Some (vf ballot)"
    using idx by (auto simp: in_set_conv_nth)
  have shape: "Constrs m = ?c_alpha # ?cs @ [?c_gamma]"
    using lp_rows_shape [of iter_ints iter_tuples num_alts k T vf] by (simp add: m)
  have len: "length ?cs = length ?sw" by simp
  have sets: "set ?sw = set (swaps num_alts k)"
    by (simp only: set_builder_swaps [OF assms(1)] set_swaps)
  have per_ballot:
    "freq ballot = Some (vf ballot)
     \<and> (\<forall>j < length ?cs. case ?sw ! j of (x, y) \<Rightarrow>
           terms_of (?cs ! j) (vf ballot) =
             [float_of_rat (harmonic_number (utility ballot (swapped ?W x y))),
              - float_of_rat (harmonic_number (utility ballot ?W))]
           \<and> ballot_lhs num_alts k T 0 (\<lambda>p. Some (if p = (x, y) then 1 else 0)) 0 ballot
               = Inr (harmonic_number (utility ballot (swapped ?W x y))
                      - harmonic_number (utility ballot ?W))
           \<and> (float_of_rat (harmonic_number (utility ballot (swapped ?W x y)))
                = harmonic_number (utility ballot (swapped ?W x y))
              \<and> float_of_rat (harmonic_number (utility ballot ?W))
                = harmonic_number (utility ballot ?W)
              \<longrightarrow> ballot_lhs num_alts k T 0 (\<lambda>p. Some (if p = (x, y) then 1 else 0)) 0 ballot
                    = Inr (coeff (?cs ! j) (vf ballot))))
     \<and> terms_of ?c_gamma (vf ballot) =
         (if utility ballot T > utility ballot ?W then [- 1] else [])
     \<and> coeff ?c_gamma (vf ballot) = - (if utility ballot T > utility ballot ?W then 1 else 0)
     \<and> ballot_lhs num_alts k T 0 (\<lambda>p. Some 0) 1 ballot = Inr (coeff ?c_gamma (vf ballot))"
    if b: "ballot \<in> set ?bs" for ballot
  proof -
    have tg: "terms_of ?c_gamma (vf ballot) =
                (if utility ballot T > utility ballot ?W then [- 1] else [])"
      using terms_of_gamma_row [OF assms(2) inj b] .
    then have cg: "coeff ?c_gamma (vf ballot) =
                     - (if utility ballot T > utility ballot ?W then 1 else 0)"
      by (simp add: coeff_as_sum_of_terms)
    have swaps_part: "\<forall>j < length ?cs. case ?sw ! j of (x, y) \<Rightarrow>
           terms_of (?cs ! j) (vf ballot) =
             [float_of_rat (harmonic_number (utility ballot (swapped ?W x y))),
              - float_of_rat (harmonic_number (utility ballot ?W))]
           \<and> ballot_lhs num_alts k T 0 (\<lambda>p. Some (if p = (x, y) then 1 else 0)) 0 ballot
               = Inr (harmonic_number (utility ballot (swapped ?W x y))
                      - harmonic_number (utility ballot ?W))
           \<and> (float_of_rat (harmonic_number (utility ballot (swapped ?W x y)))
                = harmonic_number (utility ballot (swapped ?W x y))
              \<and> float_of_rat (harmonic_number (utility ballot ?W))
                = harmonic_number (utility ballot ?W)
              \<longrightarrow> ballot_lhs num_alts k T 0 (\<lambda>p. Some (if p = (x, y) then 1 else 0)) 0 ballot
                    = Inr (coeff (?cs ! j) (vf ballot)))"
    proof (intro allI impI)
      fix j assume j: "j < length ?cs"
      then have j': "j < length ?sw" by simp
      obtain x y where xy: "?sw ! j = (x, y)" by (cases "?sw ! j")
      with j' have mem: "(x, y) \<in> set ?sw" by (metis nth_mem)
      then have p: "(x, y) \<in> swap_pairs ?W (A num_alts)"
        by (simp only: set_builder_swaps [OF assms(1)])
      from mem have mem': "(x, y) \<in> set (swaps num_alts k)"
        by (simp only: sets)
      from d(3) mem have "iter_ints ((set ?W - {x}) \<union> {y}) \<in> set (committees num_alts k)"
        by blast
      then have w: "iter_ints ((set ?W - {x}) \<union> {y}) = swapped ?W x y"
        by (simp only: swapped_tuple_in_committees_iff(1,2) [OF assms(1) d(2) p])
      have row: "?cs ! j = swap_row iter_ints num_alts k vf (x, y)"
        using j' xy by simp
      have t: "terms_of (?cs ! j) (vf ballot) =
                 [float_of_rat (harmonic_number (utility ballot (swapped ?W x y))),
                  - float_of_rat (harmonic_number (utility ballot ?W))]"
        unfolding row
        using terms_of_swap_row [OF inj b, of iter_ints k x y, unfolded w harmonic_number_imported_eq] .
      have l: "ballot_lhs num_alts k T 0 (\<lambda>p. Some (if p = (x, y) then 1 else 0)) 0 ballot
               = Inr (harmonic_number (utility ballot (swapped ?W x y))
                      - harmonic_number (utility ballot ?W))"
        by (rule ballot_lhs_unit_swap [OF mem'])
      have c: "coeff (?cs ! j) (vf ballot) =
                 float_of_rat (harmonic_number (utility ballot (swapped ?W x y)))
                 - float_of_rat (harmonic_number (utility ballot ?W))"
        by (simp add: coeff_as_sum_of_terms t)
      show "case ?sw ! j of (x, y) \<Rightarrow>
           terms_of (?cs ! j) (vf ballot) =
             [float_of_rat (harmonic_number (utility ballot (swapped ?W x y))),
              - float_of_rat (harmonic_number (utility ballot ?W))]
           \<and> ballot_lhs num_alts k T 0 (\<lambda>p. Some (if p = (x, y) then 1 else 0)) 0 ballot
               = Inr (harmonic_number (utility ballot (swapped ?W x y))
                      - harmonic_number (utility ballot ?W))
           \<and> (float_of_rat (harmonic_number (utility ballot (swapped ?W x y)))
                = harmonic_number (utility ballot (swapped ?W x y))
              \<and> float_of_rat (harmonic_number (utility ballot ?W))
                = harmonic_number (utility ballot ?W)
              \<longrightarrow> ballot_lhs num_alts k T 0 (\<lambda>p. Some (if p = (x, y) then 1 else 0)) 0 ballot
                    = Inr (coeff (?cs ! j) (vf ballot)))"
        unfolding xy prod.case using t l c by simp
    qed
    show ?thesis
      using vf b swaps_part tg cg ballot_lhs_unit_gamma [of num_alts k T ballot] by simp
  qed
  have all: "\<forall>ballot \<in> set ?bs.
     freq ballot = Some (vf ballot)
     \<and> (\<forall>j < length ?cs. case ?sw ! j of (x, y) \<Rightarrow>
           terms_of (?cs ! j) (vf ballot) =
             [float_of_rat (harmonic_number (utility ballot (swapped ?W x y))),
              - float_of_rat (harmonic_number (utility ballot ?W))]
           \<and> ballot_lhs num_alts k T 0 (\<lambda>p. Some (if p = (x, y) then 1 else 0)) 0 ballot
               = Inr (harmonic_number (utility ballot (swapped ?W x y))
                      - harmonic_number (utility ballot ?W))
           \<and> (float_of_rat (harmonic_number (utility ballot (swapped ?W x y)))
                = harmonic_number (utility ballot (swapped ?W x y))
              \<and> float_of_rat (harmonic_number (utility ballot ?W))
                = harmonic_number (utility ballot ?W)
              \<longrightarrow> ballot_lhs num_alts k T 0 (\<lambda>p. Some (if p = (x, y) then 1 else 0)) 0 ballot
                    = Inr (coeff (?cs ! j) (vf ballot))))
     \<and> terms_of ?c_gamma (vf ballot) =
         (if utility ballot T > utility ballot ?W then [- 1] else [])
     \<and> coeff ?c_gamma (vf ballot) = - (if utility ballot T > utility ballot ?W then 1 else 0)
     \<and> ballot_lhs num_alts k T 0 (\<lambda>p. Some 0) 1 ballot = Inr (coeff ?c_gamma (vf ballot))"
    by (rule ballI) (rule per_ballot)
  show ?thesis
    apply (rule exI [of _ vf])
    apply (rule exI [of _ ?c_alpha], rule exI [of _ ?cs], rule exI [of _ ?c_gamma])
    apply (intro conjI)
       apply (rule shape)
      apply (rule len)
     apply (rule sets)
    apply (rule all)
    done
qed

theorem builder_verifier_coefficients_up_to_rounding_witness:
  "enumerates (sorted_list_of_set :: nat set \<Rightarrow> nat list)
   \<and> enumerates (sorted_list_of_set :: nat list set \<Rightarrow> nat list list)
   \<and> [2] \<in> set (ballots 3)
   \<and> (\<exists>m freq vf c_alpha cs c_gamma.
         make_model sorted_list_of_set sorted_list_of_set 3 2 [2] False = Inr (m, freq)
         \<and> Constrs m = c_alpha # cs @ [c_gamma]
         \<and> freq [2] = Some (vf [2::nat])
         \<and> terms_of (cs ! 0) (vf [2]) = [1, 0]
         \<and> coeff (cs ! 0) (vf [2]) = 1
         \<and> ballot_lhs 3 2 [2] 0 (\<lambda>p. Some (if p = (0, 2) then 1 else 0)) 0 [2] = Inr 1
         \<and> coeff c_gamma (vf [2]) = - 1
         \<and> ballot_lhs 3 2 [2] 0 (\<lambda>p. Some 0) 1 [2] = Inr (- 1))"
proof -
  have e1: "enumerates (sorted_list_of_set :: nat set \<Rightarrow> nat list)"
    and e2: "enumerates (sorted_list_of_set :: nat list set \<Rightarrow> nat list list)"
    by (rule enumerates_sorted_list_of_set)+
  have h1: "(0::nat) < 2" and h2: "(2::nat) \<le> 3" by simp_all
  have b: "[2] \<in> set (ballots 3)" by code_simp
  have sw: "builder_swaps sorted_list_of_set 3 2 = [(0, 2), (1, 2)]" by code_simp
  have u: "utility [2] [2] > utility [2] (pav_committee 3 2)" by code_simp
  have f1: "float_of_rat (harmonic_number (utility [2] (swapped (pav_committee 3 2) 0 2))) = 1"
    and f1': "harmonic_number (utility [2] (swapped (pav_committee 3 2) 0 2)) = 1"
    and f2: "float_of_rat (harmonic_number (utility [2] (pav_committee 3 2))) = 0"
    and f2': "harmonic_number (utility [2] (pav_committee 3 2)) = 0"
    by code_simp+
  from make_model_ascending_succeeds [OF e2 h1 h2, of "[2]" False]
  obtain m freq where
    mm: "make_model sorted_list_of_set sorted_list_of_set 3 2 [2] False = Inr (m, freq)"
    by blast
  from builder_verifier_coefficients_up_to_rounding [OF e1 e2 mm]
  obtain vf c_alpha cs c_gamma where body:
    "Constrs m = c_alpha # cs @ [c_gamma]
     \<and> length cs = length (builder_swaps sorted_list_of_set 3 2)
     \<and> set (builder_swaps sorted_list_of_set 3 2) = set (swaps 3 2)
     \<and> (\<forall>ballot \<in> set (ballots 3).
           freq ballot = Some (vf ballot)
           \<and> (\<forall>j < length cs. case builder_swaps sorted_list_of_set 3 2 ! j of (x, y) \<Rightarrow>
                 terms_of (cs ! j) (vf ballot) =
                   [float_of_rat (harmonic_number
                      (utility ballot (swapped (pav_committee 3 2) x y))),
                    - float_of_rat (harmonic_number (utility ballot (pav_committee 3 2)))]
                 \<and> ballot_lhs 3 2 [2] 0 (\<lambda>p. Some (if p = (x, y) then 1 else 0)) 0 ballot
                     = Inr (harmonic_number (utility ballot (swapped (pav_committee 3 2) x y))
                            - harmonic_number (utility ballot (pav_committee 3 2)))
                 \<and> (float_of_rat (harmonic_number
                        (utility ballot (swapped (pav_committee 3 2) x y)))
                      = harmonic_number (utility ballot (swapped (pav_committee 3 2) x y))
                    \<and> float_of_rat (harmonic_number (utility ballot (pav_committee 3 2)))
                      = harmonic_number (utility ballot (pav_committee 3 2))
                    \<longrightarrow> ballot_lhs 3 2 [2] 0 (\<lambda>p. Some (if p = (x, y) then 1 else 0)) 0 ballot
                          = Inr (coeff (cs ! j) (vf ballot))))
           \<and> terms_of c_gamma (vf ballot) =
               (if utility ballot [2] > utility ballot (pav_committee 3 2) then [- 1] else [])
           \<and> coeff c_gamma (vf ballot) =
               - (if utility ballot [2] > utility ballot (pav_committee 3 2) then 1 else 0)
           \<and> ballot_lhs 3 2 [2] 0 (\<lambda>p. Some 0) 1 ballot = Inr (coeff c_gamma (vf ballot)))"
    by (elim exE) (rule that)
  note shape = body [THEN conjunct1]
  note len = body [THEN conjunct2, THEN conjunct1]
  note pb = body [THEN conjunct2, THEN conjunct2, THEN conjunct2, THEN bspec, OF b]
  note f = pb [THEN conjunct1]
  note s = pb [THEN conjunct2, THEN conjunct1]
  note g = pb [THEN conjunct2, THEN conjunct2, THEN conjunct2, THEN conjunct1]
  note gl = pb [THEN conjunct2, THEN conjunct2, THEN conjunct2, THEN conjunct2]
  have j0: "0 < length cs" by (simp add: len sw)
  from s [rule_format, OF j0] have
    s0: "terms_of (cs ! 0) (vf [2]) =
           [float_of_rat (harmonic_number (utility [2] (swapped (pav_committee 3 2) 0 2))),
            - float_of_rat (harmonic_number (utility [2] (pav_committee 3 2)))]"
    and s0l: "ballot_lhs 3 2 [2] 0 (\<lambda>p. Some (if p = (0, 2) then 1 else 0)) 0 [2]
               = Inr (harmonic_number (utility [2] (swapped (pav_committee 3 2) 0 2))
                      - harmonic_number (utility [2] (pav_committee 3 2)))"
    by (simp_all add: sw)
  have t0: "terms_of (cs ! 0) (vf [2]) = [1, 0]"
    unfolding s0 f1 f2 by simp
  have c0: "coeff (cs ! 0) (vf [2]) = 1"
    by (simp add: coeff_as_sum_of_terms t0)
  have l0: "ballot_lhs 3 2 [2] 0 (\<lambda>p. Some (if p = (0, 2) then 1 else 0)) 0 [2] = Inr 1"
    unfolding s0l f1' f2' by simp
  have cg: "coeff c_gamma (vf [2]) = - 1"
    using g u by simp
  have lg: "ballot_lhs 3 2 [2] 0 (\<lambda>p. Some 0) 1 [2] = Inr (- 1)"
    using gl cg by simp
  have "make_model sorted_list_of_set sorted_list_of_set 3 2 [2] False = Inr (m, freq)
         \<and> Constrs m = c_alpha # cs @ [c_gamma]
         \<and> freq [2] = Some (vf [2::nat])
         \<and> terms_of (cs ! 0) (vf [2]) = [1, 0]
         \<and> coeff (cs ! 0) (vf [2]) = 1
         \<and> ballot_lhs 3 2 [2] 0 (\<lambda>p. Some (if p = (0, 2) then 1 else 0)) 0 [2] = Inr 1
         \<and> coeff c_gamma (vf [2]) = - 1
         \<and> ballot_lhs 3 2 [2] 0 (\<lambda>p. Some 0) 1 [2] = Inr (- 1)"
    by (intro conjI; (rule mm shape f t0 c0 l0 cg lg))
  then have "\<exists>m freq vf c_alpha cs c_gamma.
         make_model sorted_list_of_set sorted_list_of_set 3 2 [2] False = Inr (m, freq)
         \<and> Constrs m = c_alpha # cs @ [c_gamma]
         \<and> freq [2] = Some (vf [2::nat])
         \<and> terms_of (cs ! 0) (vf [2]) = [1, 0]
         \<and> coeff (cs ! 0) (vf [2]) = 1
         \<and> ballot_lhs 3 2 [2] 0 (\<lambda>p. Some (if p = (0, 2) then 1 else 0)) 0 [2] = Inr 1
         \<and> coeff c_gamma (vf [2]) = - 1
         \<and> ballot_lhs 3 2 [2] 0 (\<lambda>p. Some 0) 1 [2] = Inr (- 1)"
    by blast
  with e1 e2 b show ?thesis by blast
qed

text \<open>
  C2 as stated fails. For \<open>num_alts = 4\<close>, \<open>k = 3\<close> (alternatives below \<open>8\<close> are iterated in
  ascending order by CPython), the ballot \<open>(0, 1, 2)\<close> and the swap \<open>(0, 3)\<close>: the builder's
  row \<open>beta_0_3\<close> holds the terms \<open>1.5\<close> and \<open>-1.8333333333333333\<close>, a coefficient of
  \<open>-1501199875790165 / 2^52\<close> (the difference of the two doubles is itself a double, so
  adding the terms in floating point gives the same), while the verifier's factor is
  \<open>3/2 - 11/6 = -1/3\<close>.
\<close>

theorem builder_swap_coefficient_rounded:
  "map_sum id (\<lambda>(m, freq). (ConstrName (Constrs m ! 1),
                              terms_of (Constrs m ! 1) (the (freq [0, 1, 2])),
                              coeff (Constrs m ! 1) (the (freq [0, 1, 2]))))
     (make_model sorted_list_of_set sorted_list_of_set 4 3 [3] False)
   = Inr (''beta_0_3'', [3 / 2, - (8256599316845909 / 4503599627370496)],
          - (1501199875790165 / 4503599627370496))
   \<and> ballot_lhs 4 3 [3] 0 (\<lambda>p. Some (if p = (0, 3) then 1 else 0)) 0 [0, 1, 2] = Inr (- (1 / 3))
   \<and> (- (1501199875790165 / 4503599627370496) :: rat) \<noteq> - (1 / 3)"
  by code_simp

text \<open>
  C9. The empty ballot has utility \<open>0\<close> against every committee and every deviation target, so
  it never strictly prefers \<open>T\<close>: in every model that the builder returns, whatever the
  iteration order of sets, the deviation row holds no term for its variable (coefficient \<open>0\<close>),
  and the verifier's left-hand side for it is what the swap loop returns, without \<open>gamma\<close>
  subtracted (it is \<open>alpha\<close> when every swap has a \<open>beta\<close>).
\<close>

theorem empty_ballot_no_deviation_term:
  "utility [] committee = 0
   \<and> \<not> utility [] T > utility [] committee
   \<and> [] \<in> set (ballots num_alts)
   \<and> (enumerates iter_tuples \<longrightarrow>
        (\<forall>m freq. make_model iter_ints iter_tuples num_alts k T integral = Inr (m, freq) \<longrightarrow>
           (\<exists>v. freq [] = Some v
              \<and> ConstrName (last (Constrs m)) = ''gamma''
              \<and> terms_of (last (Constrs m)) v = []
              \<and> coeff (last (Constrs m)) v = 0)))
   \<and> ballot_lhs num_alts k T alpha beta gamma [] =
       add_swap_terms (pav_committee num_alts k) beta [] (swaps num_alts k) alpha
   \<and> ((\<forall>p \<in> set (swaps num_alts k). \<exists>b. beta p = Some b) \<longrightarrow>
        ballot_lhs num_alts k T alpha beta gamma [] = Inr alpha)"
proof (intro conjI impI allI)
  show "utility [] committee = 0"
    by (rule utility_empty)
  show "\<not> utility [] T > utility [] committee"
    by (simp add: utility_empty)
  show "[] \<in> set (ballots num_alts)"
    by (rule empty_in_ballots)
  show "ballot_lhs num_alts k T alpha beta gamma [] =
       add_swap_terms (pav_committee num_alts k) beta [] (swaps num_alts k) alpha"
    by (simp add: ballot_lhs_def utility_empty split: sum.splits)
next
  assume "\<forall>p \<in> set (swaps num_alts k). \<exists>b. beta p = Some b"
  then show "ballot_lhs num_alts k T alpha beta gamma [] = Inr alpha"
    by (simp add: ballot_lhs_def utility_empty add_swap_terms_empty_ballot)
next
  fix m freq
  assume it: "enumerates iter_tuples"
    and mm: "make_model iter_ints iter_tuples num_alts k T integral = Inr (m, freq)"
  from make_model_success_D(4) [OF it mm] obtain vf where
    idx: "\<forall>i < length (ballots num_alts).
                freq (ballots num_alts ! i) = Some i \<and> vf (ballots num_alts ! i) = i"
    and m: "m = \<lparr>OutputFlag = 0, NumVars = length (ballots num_alts),
                  Constrs = lp_rows iter_ints iter_tuples num_alts k T vf\<rparr>"
    by blast
  have inj: "inj_on vf (set (ballots num_alts))"
    using idx by (intro inj_on_index_function) simp
  have f: "freq [] = Some (vf [])"
    using idx empty_in_ballots [of num_alts] by (auto simp: in_set_conv_nth)
  have t: "terms_of (last (lp_rows iter_ints iter_tuples num_alts k T vf)) (vf []) = []"
    using terms_of_gamma_row [OF it inj empty_in_ballots, of iter_ints k T]
    by (simp add: utility_empty)
  then have c: "coeff (last (lp_rows iter_ints iter_tuples num_alts k T vf)) (vf []) = 0"
    by (simp add: coeff_as_sum_of_terms)
  have rows: "Constrs m = lp_rows iter_ints iter_tuples num_alts k T vf"
    by (simp add: m)
  show "\<exists>v. freq [] = Some v
              \<and> ConstrName (last (Constrs m)) = ''gamma''
              \<and> terms_of (last (Constrs m)) v = []
              \<and> coeff (last (Constrs m)) v = 0"
    unfolding rows using f t c lp_rows_gamma(1) [of iter_ints iter_tuples num_alts k T vf]
    by blast
qed

theorem empty_ballot_no_deviation_term_witness:
  "utility [] [0, 1] = 0
   \<and> \<not> utility [] [0, 2] > utility [] [0, 1]
   \<and> [] \<in> set (ballots 3)
   \<and> enumerates (sorted_list_of_set :: nat list set \<Rightarrow> nat list list)
   \<and> (\<exists>m freq v. make_model sorted_list_of_set sorted_list_of_set 3 2 [0, 2] False = Inr (m, freq)
           \<and> freq [] = Some v
           \<and> ConstrName (last (Constrs m)) = ''gamma''
           \<and> terms_of (last (Constrs m)) v = []
           \<and> coeff (last (Constrs m)) v = 0)
   \<and> ballot_lhs 3 2 [0, 2] 1 (\<lambda>p. Some (1 / 2)) (1 / 3) [] = Inr 1"
proof -
  note t = empty_ballot_no_deviation_term
    [of "[0, 1]" "[0, 2]" 3 sorted_list_of_set sorted_list_of_set 2 False 1 "\<lambda>p. Some (1 / 2)" "1 / 3"]
  have e2: "enumerates (sorted_list_of_set :: nat list set \<Rightarrow> nat list list)"
    by (rule enumerates_sorted_list_of_set)
  have h1: "(0::nat) < 2" and h2: "(2::nat) \<le> 3" by simp_all
  have a: "\<forall>p \<in> set (swaps 3 2). \<exists>b. (\<lambda>p. Some (1 / 2 :: rat)) p = Some b" by blast
  from make_model_ascending_succeeds [OF e2 h1 h2, of "[0, 2]" False]
  obtain m freq where
    mm: "make_model sorted_list_of_set sorted_list_of_set 3 2 [0, 2] False = Inr (m, freq)"
    by blast
  from t have 1: "utility [] [0, 1] = 0" by (rule conjunct1)
  from t have 2: "\<not> utility [] [0, 2] > utility [] [0, 1]" by blast
  from t have 3: "[] \<in> set (ballots 3)" by blast
  from t have "enumerates (sorted_list_of_set :: nat list set \<Rightarrow> nat list list) \<longrightarrow>
        (\<forall>m freq. make_model sorted_list_of_set sorted_list_of_set 3 2 [0, 2] False = Inr (m, freq) \<longrightarrow>
           (\<exists>v. freq [] = Some v
              \<and> ConstrName (last (Constrs m)) = ''gamma''
              \<and> terms_of (last (Constrs m)) v = []
              \<and> coeff (last (Constrs m)) v = 0))"
    by blast
  with e2 mm have 4: "\<exists>m freq v. make_model sorted_list_of_set sorted_list_of_set 3 2 [0, 2] False = Inr (m, freq)
           \<and> freq [] = Some v
           \<and> ConstrName (last (Constrs m)) = ''gamma''
           \<and> terms_of (last (Constrs m)) v = []
           \<and> coeff (last (Constrs m)) v = 0" by blast
  from t a have 5: "ballot_lhs 3 2 [0, 2] 1 (\<lambda>p. Some (1 / 2)) (1 / 3) [] = Inr 1" by blast
  from 1 2 3 e2 4 5 show ?thesis by blast
qed

section \<open>Canonical sets and orbits\<close>

lemma filter_take_prefix:
  assumes "distinct xs"
  shows "filter (\<lambda>x. x \<in> set (take n xs)) xs = take n xs"
proof -
  let ?P = "\<lambda>x. x \<in> set (take n xs)"
  have "distinct (take n xs @ drop n xs)"
    using assms by simp
  then have disj: "set (take n xs) \<inter> set (drop n xs) = {}"
    by (simp only: distinct_append)
  have a: "filter ?P (take n xs) = take n xs"
    by (simp add: filter_id_conv)
  have b: "filter ?P (drop n xs) = []"
    using disj by (auto simp: filter_empty_conv)
  have "filter ?P xs = filter ?P (take n xs @ drop n xs)"
    by simp
  also have "\<dots> = filter ?P (take n xs) @ filter ?P (drop n xs)"
    by (rule filter_append)
  finally show ?thesis
    by (simp only: a b append_Nil2)
qed

lemma block_canonical_iff:
  assumes "distinct block"
  shows "(filter (\<lambda>x. x \<in> S) block = take (length (filter (\<lambda>x. x \<in> S) block)) block)
         \<longleftrightarrow> S \<inter> set block = set (take (card (S \<inter> set block)) block)"
proof -
  have len: "length (filter (\<lambda>x. x \<in> S) block) = card (S \<inter> set block)"
    using distinct_length_filter [OF assms, of "\<lambda>x. x \<in> S"] by simp
  have set_f: "set (filter (\<lambda>x. x \<in> S) block) = S \<inter> set block"
    by auto
  show ?thesis
  proof
    assume "filter (\<lambda>x. x \<in> S) block = take (length (filter (\<lambda>x. x \<in> S) block)) block"
    then have "set (filter (\<lambda>x. x \<in> S) block) = set (take (card (S \<inter> set block)) block)"
      by (simp only: len)
    then show "S \<inter> set block = set (take (card (S \<inter> set block)) block)"
      by (simp only: set_f)
  next
    assume eq: "S \<inter> set block = set (take (card (S \<inter> set block)) block)"
    have "filter (\<lambda>x. x \<in> S) block = filter (\<lambda>x. x \<in> S \<inter> set block) block"
      by (rule filter_cong) simp_all
    also have "\<dots> = filter (\<lambda>x. x \<in> set (take (card (S \<inter> set block)) block)) block"
      using eq by simp
    also have "\<dots> = take (card (S \<inter> set block)) block"
      using assms by (rule filter_take_prefix)
    finally have f: "filter (\<lambda>x. x \<in> S) block = take (card (S \<inter> set block)) block" .
    show "filter (\<lambda>x. x \<in> S) block = take (length (filter (\<lambda>x. x \<in> S) block)) block"
      unfolding len by (rule f)
  qed
qed

lemma is_wlog_iff:
  assumes "\<forall>block \<in> set wlog_partition. distinct block"
  shows "is_wlog candidate_set wlog_partition \<longleftrightarrow>
           (\<forall>block \<in> set wlog_partition.
              set candidate_set \<inter> set block
              = set (take (card (set candidate_set \<inter> set block)) block))"
  using assms by (simp add: is_wlog_def list_all_iff Let_def block_canonical_iff)

lemma card_diff_swap:
  assumes "finite X" "finite Y" "card X = card Y"
  shows "card (X - Y) = card (Y - X)"
proof -
  have "card X = card (X - Y) + card (X \<inter> Y)"
    using assms(1) by (metis card_Diff_subset_Int add.commute card_mono finite_Int inf_le1 le_add_diff_inverse)
  moreover have "card Y = card (Y - X) + card (X \<inter> Y)"
    using assms(2) by (metis card_Diff_subset_Int add.commute card_mono finite_Int inf_le1 le_add_diff_inverse Int_commute)
  ultimately show ?thesis
    using assms(3) by simp
qed

lemma block_permutation_exists:
  fixes B X Y :: "nat set"
  assumes "finite B" "X \<subseteq> B" "Y \<subseteq> B" "card X = card Y"
  shows "\<exists>p. bij p \<and> p ` X = Y \<and> p ` B = B \<and> (\<forall>x. x \<notin> B \<longrightarrow> p x = x)"
proof -
  have fin: "finite X" "finite Y"
    using assms by (auto intro: finite_subset)
  then have "card (X - Y) = card (Y - X)"
    using assms(4) by (rule card_diff_swap)
  then obtain g where g: "bij_betw g (X - Y) (Y - X)"
    using fin by (metis finite_Diff finite_same_card_bij)
  define h where "h = inv_into (X - Y) g"
  define p where "p = (\<lambda>x. if x \<in> X - Y then g x else if x \<in> Y - X then h x else x)"
  have g_in: "g x \<in> Y - X" if "x \<in> X - Y" for x
    using g that by (auto simp: bij_betw_def)
  have h_in: "h x \<in> X - Y" if "x \<in> Y - X" for x
    using g that unfolding h_def by (metis bij_betw_def inv_into_into)
  have hg: "h (g x) = x" if "x \<in> X - Y" for x
    using g that unfolding h_def by (simp add: bij_betw_def)
  have gh: "g (h x) = x" if "x \<in> Y - X" for x
    using g that unfolding h_def by (metis bij_betw_def f_inv_into_f)
  have invol: "p (p x) = x" for x
  proof -
    consider "x \<in> X - Y" | "x \<in> Y - X" | "x \<notin> X - Y" "x \<notin> Y - X" by blast
    then show ?thesis
    proof cases
      case 1
      then have "p x = g x" by (simp add: p_def)
      moreover have "p (g x) = h (g x)"
        using g_in [OF 1] by (auto simp: p_def)
      ultimately show ?thesis using hg [OF 1] by simp
    next
      case 2
      then have "p x = h x" by (auto simp: p_def)
      moreover have "p (h x) = g (h x)"
        using h_in [OF 2] by (simp add: p_def)
      ultimately show ?thesis using gh [OF 2] by simp
    next
      case 3
      then have "p x = x" by (auto simp: p_def)
      then show ?thesis by simp
    qed
  qed
  have bij: "bij p"
    using invol by (rule involuntory_imp_bij)
  have "p ` (X - Y) = Y - X"
  proof -
    have "p ` (X - Y) = g ` (X - Y)"
      by (rule image_cong) (simp_all add: p_def)
    then show ?thesis
      using g by (simp add: bij_betw_def)
  qed
  moreover have "p ` (X \<inter> Y) = X \<inter> Y"
  proof -
    have "p ` (X \<inter> Y) = id ` (X \<inter> Y)"
      by (rule image_cong) (auto simp: p_def)
    then show ?thesis by simp
  qed
  moreover have "X = (X - Y) \<union> (X \<inter> Y)" "Y = (Y - X) \<union> (X \<inter> Y)"
    by blast+
  ultimately have img: "p ` X = Y"
    by (metis image_Un)
  have into: "p x \<in> B" if "x \<in> B" for x
    using that g_in [of x] h_in [of x] assms(2,3) by (auto simp: p_def)
  have "p ` B = B"
  proof
    show "p ` B \<subseteq> B" using into by blast
    show "B \<subseteq> p ` B"
    proof
      fix x assume "x \<in> B"
      then have "p x \<in> B" by (rule into)
      then have "p (p x) \<in> p ` B" by (rule imageI)
      then show "x \<in> p ` B" by (simp add: invol)
    qed
  qed
  moreover have "\<forall>x. x \<notin> B \<longrightarrow> p x = x"
    using assms(2,3) by (auto simp: p_def)
  ultimately show ?thesis
    using bij img by blast
qed

lemma card_take_distinct:
  assumes "distinct xs" "n \<le> length xs"
  shows "card (set (take n xs)) = n"
  using assms by (simp add: distinct_card)

lemma canonical_block_permutation:
  fixes S :: "nat set"
  assumes "distinct B"
  shows "\<exists>p. bij p \<and> p ` (S \<inter> set B) = set (take (card (S \<inter> set B)) B)
            \<and> p ` set B = set B \<and> (\<forall>x. x \<notin> set B \<longrightarrow> p x = x)"
proof (rule block_permutation_exists)
  show "finite (set B)" by simp
  show "S \<inter> set B \<subseteq> set B" by simp
  show "set (take (card (S \<inter> set B)) B) \<subseteq> set B"
    by (rule set_take_subset)
  have "card (S \<inter> set B) \<le> card (set B)"
    by (rule card_mono) simp_all
  also have "\<dots> = length B"
    using assms by (rule distinct_card)
  finally have "card (S \<inter> set B) \<le> length B" .
  with assms show "card (S \<inter> set B) = card (set (take (card (S \<inter> set B)) B))"
    by (simp add: card_take_distinct)
qed

lemma image_Int_block:
  assumes "bij p" "p ` B = B"
  shows "p ` S \<inter> B = p ` (S \<inter> B)"
proof -
  have "inj p" using assms(1) by (rule bij_is_inj)
  then have "p ` (S \<inter> B) = p ` S \<inter> p ` B"
    by (rule image_Int)
  with assms(2) show ?thesis by simp
qed

lemma canonical_permutation_exists:
  fixes S :: "nat set"
  assumes "distinct (concat P)"
  shows "\<exists>p. within_block_permutation P p
            \<and> (\<forall>B \<in> set P. p ` (S \<inter> set B) = set (take (card (S \<inter> set B)) B))"
  using assms
proof (induction P)
  case Nil
  have "within_block_permutation [] id"
    by (simp add: within_block_permutation_def)
  then show ?case by auto
next
  case (Cons B Bs)
  from Cons.prems have dB: "distinct B" and dBs: "distinct (concat Bs)"
    and disj: "set B \<inter> \<Union> (set ` set Bs) = {}"
    by auto
  from Cons.IH [OF dBs] obtain q where
    q: "within_block_permutation Bs q" and
    qS: "\<forall>B' \<in> set Bs. q ` (S \<inter> set B') = set (take (card (S \<inter> set B')) B')"
    by blast
  from canonical_block_permutation [OF dB, of S] obtain s where
    s: "bij s" "s ` (S \<inter> set B) = set (take (card (S \<inter> set B)) B)" "s ` set B = set B"
      "\<forall>x. x \<notin> set B \<longrightarrow> s x = x"
    by blast
  have q_bij: "bij q" and q_blocks: "\<forall>B' \<in> set Bs. q ` set B' = set B'"
    and q_out: "\<forall>x. x \<notin> \<Union> (set ` set Bs) \<longrightarrow> q x = x"
    using q by (simp_all add: within_block_permutation_def)
  have q_B: "q x = x" if "x \<in> set B" for x
    using that disj q_out by blast
  have s_Bs: "s x = x" if "x \<in> set B'" "B' \<in> set Bs" for x B'
    using that disj s(4) by blast
  let ?p = "s \<circ> q"
  have "bij ?p"
    using s(1) q_bij by (rule bij_comp [rotated])
  moreover have "?p ` set B = set B"
  proof -
    have "q ` set B = set B"
      using q_B by (auto simp: image_iff)
    then show ?thesis
      using s(3) by (simp only: image_comp [symmetric])
  qed
  moreover have "?p ` set B' = set B'" if "B' \<in> set Bs" for B'
  proof -
    have "s ` set B' = set B'"
      using s_Bs [OF _ that] by (auto simp: image_iff)
    moreover have "q ` set B' = set B'"
      using q_blocks that by simp
    ultimately show ?thesis
      by (simp only: image_comp [symmetric])
  qed
  moreover have "?p x = x" if "x \<notin> \<Union> (set ` set (B # Bs))" for x
    using that q_out s(4) by simp
  ultimately have wp: "within_block_permutation (B # Bs) ?p"
    by (simp add: within_block_permutation_def)
  have "?p ` (S \<inter> set B) = set (take (card (S \<inter> set B)) B)"
  proof -
    have "q ` (S \<inter> set B) = S \<inter> set B"
      using q_B by (auto simp: image_iff)
    then show ?thesis
      using s(2) by (simp only: image_comp [symmetric])
  qed
  moreover have "?p ` (S \<inter> set B') = set (take (card (S \<inter> set B')) B')" if "B' \<in> set Bs" for B'
  proof -
    have "set (take (card (S \<inter> set B')) B') \<subseteq> set B'"
      by (rule set_take_subset)
    then have "s ` set (take (card (S \<inter> set B')) B') = set (take (card (S \<inter> set B')) B')"
      using s_Bs [OF _ that] by (auto simp: image_iff subset_iff)
    moreover have "q ` (S \<inter> set B') = set (take (card (S \<inter> set B')) B')"
      using qS that by simp
    ultimately show ?thesis
      by (simp only: image_comp [symmetric])
  qed
  ultimately have "\<forall>B' \<in> set (B # Bs). ?p ` (S \<inter> set B') = set (take (card (S \<inter> set B')) B')"
    by simp
  with wp show ?case by blast
qed

lemma permutation_image_in_blocks:
  assumes "within_block_permutation P p" "S \<subseteq> \<Union> (set ` set P)"
  shows "p ` S \<subseteq> \<Union> (set ` set P)"
proof
  fix y assume "y \<in> p ` S"
  then obtain x where x: "x \<in> S" "y = p x" by blast
  with assms(2) obtain B where B: "B \<in> set P" "x \<in> set B" by blast
  with assms(1) have "p ` set B = set B"
    by (simp add: within_block_permutation_def)
  with B x show "y \<in> \<Union> (set ` set P)" by blast
qed

lemma permutation_preserves_block_count:
  assumes "within_block_permutation P p" "B \<in> set P"
  shows "card (p ` S \<inter> set B) = card (S \<inter> set B)"
proof -
  from assms have bij: "bij p" and img: "p ` set B = set B"
    by (simp_all add: within_block_permutation_def)
  have "p ` S \<inter> set B = p ` (S \<inter> set B)"
    using bij img by (rule image_Int_block)
  moreover have "card (p ` (S \<inter> set B)) = card (S \<inter> set B)"
    by (rule card_image) (meson bij bij_is_inj inj_on_subset subset_UNIV)
  ultimately show ?thesis by simp
qed

lemma canonical_unique:
  assumes p1: "within_block_permutation P p1" and p2: "within_block_permutation P p2"
    and S: "S \<subseteq> \<Union> (set ` set P)"
    and c1: "\<forall>B \<in> set P. p1 ` S \<inter> set B = set (take (card (p1 ` S \<inter> set B)) B)"
    and c2: "\<forall>B \<in> set P. p2 ` S \<inter> set B = set (take (card (p2 ` S \<inter> set B)) B)"
  shows "p1 ` S = p2 ` S"
proof -
  have eq: "p1 ` S \<inter> set B = p2 ` S \<inter> set B" if "B \<in> set P" for B
  proof -
    have "p1 ` S \<inter> set B = set (take (card (p1 ` S \<inter> set B)) B)"
      using c1 that by (rule bspec)
    then have 1: "p1 ` S \<inter> set B = set (take (card (S \<inter> set B)) B)"
      by (simp only: permutation_preserves_block_count [OF p1 that])
    have "p2 ` S \<inter> set B = set (take (card (p2 ` S \<inter> set B)) B)"
      using c2 that by (rule bspec)
    then have 2: "p2 ` S \<inter> set B = set (take (card (S \<inter> set B)) B)"
      by (simp only: permutation_preserves_block_count [OF p2 that])
    from 1 2 show ?thesis by (rule trans [OF _ sym])
  qed
  have sub: "p ` S \<subseteq> q ` S"
    if "p ` S \<subseteq> \<Union> (set ` set P)" "\<And>B. B \<in> set P \<Longrightarrow> p ` S \<inter> set B = q ` S \<inter> set B"
    for p q :: "nat \<Rightarrow> nat"
  proof
    fix y assume y: "y \<in> p ` S"
    with that(1) obtain B where B: "B \<in> set P" "y \<in> set B" by blast
    with y have "y \<in> p ` S \<inter> set B" by simp
    with that(2) [OF B(1)] show "y \<in> q ` S" by simp
  qed
  show ?thesis
  proof
    show "p1 ` S \<subseteq> p2 ` S"
      by (rule sub) (use permutation_image_in_blocks [OF p1 S] eq in auto)
    show "p2 ` S \<subseteq> p1 ` S"
      by (rule sub) (use permutation_image_in_blocks [OF p2 S] eq in auto)
  qed
qed

lemma distinct_concat_blocks:
  assumes "distinct ground" "distinct sigs"
  shows "distinct (concat (map (\<lambda>s. filter (\<lambda>x. f x = s) ground) sigs))"
  using assms(2)
proof (induction sigs)
  case Nil
  then show ?case by simp
next
  case (Cons s rest)
  then show ?case
    using assms(1) by auto
qed

lemma distinct_concat_partition:
  assumes "distinct ground_set"
  shows "distinct (concat (generate_wlog_partition ground_set distinguished_sets))"
  unfolding generate_wlog_partition_def
  by (rule distinct_concat_blocks) (use assms in simp_all)

lemma set_concat_partition:
  "set (concat (generate_wlog_partition ground_set distinguished_sets)) = set ground_set"
  by (auto simp: generate_wlog_partition_def)

lemma partition_blocks_distinct:
  assumes "distinct ground_set"
    and "block \<in> set (generate_wlog_partition ground_set distinguished_sets)"
  shows "distinct block"
  using assms by (auto simp: generate_wlog_partition_def)

lemma partition_block_shape:
  assumes "block \<in> set (generate_wlog_partition ground_set distinguished_sets)"
  shows "block \<noteq> [] \<and> block = filter (\<lambda>x. x \<in> set block) ground_set"
proof -
  from assms obtain x where x: "x \<in> set ground_set"
    and block: "block = filter (\<lambda>y. signature distinguished_sets y = signature distinguished_sets x) ground_set"
    by (auto simp: generate_wlog_partition_def)
  have "x \<in> set block"
    using x block by simp
  then have "block \<noteq> []" by auto
  moreover have "filter (\<lambda>y. y \<in> set block) ground_set = block"
  proof -
    have "filter (\<lambda>y. y \<in> set block) ground_set
          = filter (\<lambda>y. signature distinguished_sets y = signature distinguished_sets x) ground_set"
      by (rule filter_cong) (auto simp: block)
    then show ?thesis by (simp add: block [symmetric])
  qed
  ultimately show ?thesis by simp
qed

lemma signature_eq_iff:
  "signature distinguished_sets x = signature distinguished_sets y \<longleftrightarrow>
     (\<forall>D \<in> set distinguished_sets. x \<in> set D \<longleftrightarrow> y \<in> set D)"
proof
  assume eq: "signature distinguished_sets x = signature distinguished_sets y"
  show "\<forall>D \<in> set distinguished_sets. x \<in> set D \<longleftrightarrow> y \<in> set D"
  proof
    fix D assume "D \<in> set distinguished_sets"
    then obtain i where i: "i < length distinguished_sets" "D = distinguished_sets ! i"
      by (auto simp: in_set_conv_nth)
    from eq have "set (signature distinguished_sets x) = set (signature distinguished_sets y)"
      by simp
    then have "i \<in> set (signature distinguished_sets x) \<longleftrightarrow> i \<in> set (signature distinguished_sets y)"
      by simp
    with i show "x \<in> set D \<longleftrightarrow> y \<in> set D"
      by (simp add: signature_def)
  qed
next
  assume "\<forall>D \<in> set distinguished_sets. x \<in> set D \<longleftrightarrow> y \<in> set D"
  then show "signature distinguished_sets x = signature distinguished_sets y"
    unfolding signature_def by (intro filter_cong) auto
qed

lemma same_block_iff:
  assumes "x \<in> set ground_set" "y \<in> set ground_set"
  shows "(\<exists>block \<in> set (generate_wlog_partition ground_set distinguished_sets).
            x \<in> set block \<and> y \<in> set block)
         \<longleftrightarrow> (\<forall>D \<in> set distinguished_sets. x \<in> set D \<longleftrightarrow> y \<in> set D)"
  using assms unfolding signature_eq_iff [symmetric]
  by (auto simp: generate_wlog_partition_def)

lemma canonical_in_orbit_unique:
  fixes S :: "nat list"
  assumes d: "distinct (concat P)" and S: "set S \<subseteq> set (concat P)"
  shows "\<exists>!S'. S' \<in> orbit P (set S) \<and> is_wlog (sorted_list_of_set S') P"
proof -
  have blocks: "\<forall>block \<in> set P. distinct block"
    using d by (induction P) auto
  have canon: "is_wlog (sorted_list_of_set S') P \<longleftrightarrow>
                 (\<forall>B \<in> set P. S' \<inter> set B = set (take (card (S' \<inter> set B)) B))"
    if "finite S'" for S'
    using is_wlog_iff [OF blocks, of "sorted_list_of_set S'"] that by simp
  have fin: "finite S'" if "S' \<in> orbit P (set S)" for S'
    using that by (auto simp: orbit_def)
  have S': "set S \<subseteq> \<Union> (set ` set P)"
    using S by simp
  from canonical_permutation_exists [OF d, of "set S"] obtain p where
    p: "within_block_permutation P p" and
    pS: "\<forall>B \<in> set P. p ` (set S \<inter> set B) = set (take (card (set S \<inter> set B)) B)"
    by blast
  have ex: "p ` set S \<in> orbit P (set S) \<and> is_wlog (sorted_list_of_set (p ` set S)) P"
  proof
    show mem: "p ` set S \<in> orbit P (set S)"
      using p by (auto simp: orbit_def)
    have "p ` set S \<inter> set B = set (take (card (p ` set S \<inter> set B)) B)" if B: "B \<in> set P" for B
    proof -
      from p B have "bij p" "p ` set B = set B"
        by (simp_all add: within_block_permutation_def)
      then have "p ` set S \<inter> set B = p ` (set S \<inter> set B)"
        by (rule image_Int_block)
      also have "\<dots> = set (take (card (set S \<inter> set B)) B)"
        using pS B by simp
      finally have "p ` set S \<inter> set B = set (take (card (set S \<inter> set B)) B)" .
      then show ?thesis
        unfolding permutation_preserves_block_count [OF p B] .
    qed
    then show "is_wlog (sorted_list_of_set (p ` set S)) P"
      using canon [OF fin [OF mem]] by simp
  qed
  show ?thesis
  proof (rule ex1I [of _ "p ` set S"])
    show "p ` set S \<in> orbit P (set S) \<and> is_wlog (sorted_list_of_set (p ` set S)) P"
      by (rule ex)
  next
    fix S' assume a: "S' \<in> orbit P (set S) \<and> is_wlog (sorted_list_of_set S') P"
    then obtain q where q: "within_block_permutation P q" and S'q: "S' = q ` set S"
      by (auto simp: orbit_def)
    from a have mem': "S' \<in> orbit P (set S)" and wl: "is_wlog (sorted_list_of_set S') P"
      by simp_all
    from wl have "\<forall>B \<in> set P. S' \<inter> set B = set (take (card (S' \<inter> set B)) B)"
      by (simp only: canon [OF fin [OF mem']])
    then have cq: "\<forall>B \<in> set P. q ` set S \<inter> set B = set (take (card (q ` set S \<inter> set B)) B)"
      by (simp only: S'q)
    from ex have memp: "p ` set S \<in> orbit P (set S)"
      and wlp: "is_wlog (sorted_list_of_set (p ` set S)) P"
      by simp_all
    from wlp have "\<forall>B \<in> set P. p ` set S \<inter> set B = set (take (card (p ` set S \<inter> set B)) B)"
      by (simp only: canon [OF fin [OF memp]])
    with q p S' cq have "q ` set S = p ` set S"
      by (intro canonical_unique)
    with S'q show "S' = p ` set S" by simp
  qed
qed

text \<open>
  C6. For a duplicate-free ground set and the partition built by \<open>generate_wlog_partition\<close>:
  two elements of the ground set share a block iff they lie in exactly the same distinguished
  sets; the blocks are non-empty, pairwise disjoint, cover the ground set and keep its order;
  \<open>is_wlog(S, P)\<close> holds iff in every block \<open>S\<close> consists exactly of the block's first
  \<open>|S \<inter> block|\<close> elements; and among the images of \<open>S\<close> under permutations acting within the
  blocks, exactly one satisfies \<open>is_wlog\<close>.
\<close>

theorem is_wlog_canonical_in_orbit:
  fixes ground_set S :: "nat list" and distinguished_sets :: "nat list list"
  assumes "distinct ground_set" and "set S \<subseteq> set ground_set"
  defines "P \<equiv> generate_wlog_partition ground_set distinguished_sets"
  shows "(\<forall>x \<in> set ground_set. \<forall>y \<in> set ground_set.
            (\<exists>block \<in> set P. x \<in> set block \<and> y \<in> set block)
            \<longleftrightarrow> (\<forall>D \<in> set distinguished_sets. x \<in> set D \<longleftrightarrow> y \<in> set D))
         \<and> distinct (concat P) \<and> set (concat P) = set ground_set
         \<and> (\<forall>block \<in> set P. block \<noteq> [] \<and> block = filter (\<lambda>x. x \<in> set block) ground_set)
         \<and> (is_wlog S P \<longleftrightarrow>
              (\<forall>block \<in> set P.
                 set S \<inter> set block = set (take (card (set S \<inter> set block)) block)))
         \<and> (\<exists>!S'. S' \<in> orbit P (set S) \<and> is_wlog (sorted_list_of_set S') P)"
proof (intro conjI)
  show "\<forall>x \<in> set ground_set. \<forall>y \<in> set ground_set.
            (\<exists>block \<in> set P. x \<in> set block \<and> y \<in> set block)
            \<longleftrightarrow> (\<forall>D \<in> set distinguished_sets. x \<in> set D \<longleftrightarrow> y \<in> set D)"
    unfolding P_def using same_block_iff by blast
  show d: "distinct (concat P)"
    unfolding P_def using assms(1) by (rule distinct_concat_partition)
  show s: "set (concat P) = set ground_set"
    unfolding P_def by (rule set_concat_partition)
  show "\<forall>block \<in> set P. block \<noteq> [] \<and> block = filter (\<lambda>x. x \<in> set block) ground_set"
    unfolding P_def using partition_block_shape by blast
  show "is_wlog S P \<longleftrightarrow>
          (\<forall>block \<in> set P. set S \<inter> set block = set (take (card (set S \<inter> set block)) block))"
  proof (rule is_wlog_iff)
    show "\<forall>block \<in> set P. distinct block"
      unfolding P_def using partition_blocks_distinct [OF assms(1)] by blast
  qed
  show "\<exists>!S'. S' \<in> orbit P (set S) \<and> is_wlog (sorted_list_of_set S') P"
    using d by (rule canonical_in_orbit_unique) (use assms(2) s in simp)
qed

theorem is_wlog_canonical_in_orbit_witness:
  "distinct [0, 1, 2, 3::nat]
   \<and> set [1, 3] \<subseteq> set [0, 1, 2, 3::nat]
   \<and> generate_wlog_partition [0, 1, 2, 3] [[0, 1, 2]] = [[0, 1, 2], [3]]
   \<and> \<not> is_wlog [1, 3] (generate_wlog_partition [0, 1, 2, 3] [[0, 1, 2]])
   \<and> is_wlog [0, 3] (generate_wlog_partition [0, 1, 2, 3] [[0, 1, 2]])
   \<and> (\<exists>!S'. S' \<in> orbit (generate_wlog_partition [0, 1, 2, 3] [[0, 1, 2]]) (set [1, 3])
          \<and> is_wlog (sorted_list_of_set S') (generate_wlog_partition [0, 1, 2, 3] [[0, 1, 2]]))"
proof -
  have h1: "distinct [0, 1, 2, 3::nat]" by simp
  have h2: "set [1, 3] \<subseteq> set [0, 1, 2, 3::nat]" by simp
  have p: "generate_wlog_partition [0, 1, 2, 3] [[0, 1, 2]] = [[0, 1, 2], [3]]" by code_simp
  have n: "\<not> is_wlog [1, 3] (generate_wlog_partition [0, 1, 2, 3] [[0, 1, 2]])" by code_simp
  have y: "is_wlog [0, 3] (generate_wlog_partition [0, 1, 2, 3] [[0, 1, 2]])" by code_simp
  note t = is_wlog_canonical_in_orbit [OF h1 h2, of "[[0, 1, 2]]"]
  have u: "\<exists>!S'. S' \<in> orbit (generate_wlog_partition [0, 1, 2, 3] [[0, 1, 2]]) (set [1, 3])
          \<and> is_wlog (sorted_list_of_set S') (generate_wlog_partition [0, 1, 2, 3] [[0, 1, 2]])"
    using t by (elim conjE)
  show ?thesis
    by (intro conjI; (rule h1 h2 p n y u))
qed

end
